theory Spec2Isabelle
  imports Complex_Main
begin

section \<open>Text\<close>

text \<open>
  Python \<^verbatim>\<open>str\<close> values are modelled as lists of the 8-bit characters of HOL, read
  as the code points 0 to 255.  The character classes below are the ones Python uses on
  that range (\<^verbatim>\<open>str.isspace\<close>, \<^verbatim>\<open>\s\<close>, \<^verbatim>\<open>\d\<close>, \<^verbatim>\<open>str.lower\<close>).  Code points
  above 255 (the en dash of the statement-period pattern among them) are outside the model.
\<close>

definition code_point :: "char \<Rightarrow> nat" where
  "code_point c = of_char c"

definition isspace :: "char \<Rightarrow> bool" where
  "isspace c = (let n = code_point c in (9 \<le> n \<and> n \<le> 13) \<or> (28 \<le> n \<and> n \<le> 32) \<or> n = 133 \<or> n = 160)"

definition isdigit :: "char \<Rightarrow> bool" where
  "isdigit c = (let n = code_point c in 48 \<le> n \<and> n \<le> 57)"


definition lower_char :: "char \<Rightarrow> char" where
  "lower_char c = (let n = code_point c in
     if (65 \<le> n \<and> n \<le> 90) \<or> (192 \<le> n \<and> n \<le> 222 \<and> n \<noteq> 215) then char_of (n + 32) else c)"

definition lower :: "string \<Rightarrow> string" where
  "lower s = map lower_char s"

definition strip :: "string \<Rightarrow> string" where
  "strip s = rev (dropWhile isspace (rev (dropWhile isspace s)))"

definition remove_char :: "char \<Rightarrow> string \<Rightarrow> string" where
  "remove_char c s = filter (\<lambda>x. x \<noteq> c) s"

fun startswith :: "string \<Rightarrow> string \<Rightarrow> bool" where
  "startswith s [] = True"
| "startswith [] (p # ps) = False"
| "startswith (c # cs) (p # ps) = (c = p \<and> startswith cs ps)"

fun contains :: "string \<Rightarrow> string \<Rightarrow> bool" where
  "contains sub [] = (sub = [])"
| "contains sub (c # cs) = (startswith (c # cs) sub \<or> contains sub cs)"

section \<open>Regular expressions\<close>

text \<open>
  The patterns of the extractor, and the ones \<^verbatim>\<open>datetime.strptime\<close> builds from a
  format, use literals, character classes, greedy repetition of a single class,
  alternation, sequencing and capture groups.  \<open>ms\<close> lists the outcomes of matching a
  pattern at the start of a text in the order in which a backtracking matcher tries them,
  so the head of the list is the match Python reports.  An outcome is the text left after
  the match and the groups captured so far.
\<close>

datatype re =
    Cls "char \<Rightarrow> bool"
  | Star "char \<Rightarrow> bool"
  | Seq re re
  | Alt re re
  | Eps
  | Grp string re

type_synonym caps = "(string \<times> string) list"

fun star_rests :: "(char \<Rightarrow> bool) \<Rightarrow> string \<Rightarrow> string list" where
  "star_rests p [] = [[]]"
| "star_rests p (c # cs) = (if p c then star_rests p cs @ [c # cs] else [c # cs])"

fun ms :: "re \<Rightarrow> string \<times> caps \<Rightarrow> (string \<times> caps) list" where
  "ms (Cls p) (s, g) = (case s of [] \<Rightarrow> [] | c # cs \<Rightarrow> if p c then [(cs, g)] else [])"
| "ms (Star p) (s, g) = map (\<lambda>r. (r, g)) (star_rests p s)"
| "ms (Seq a b) st = concat (map (ms b) (ms a st))"
| "ms (Alt a b) st = ms a st @ ms b st"
| "ms Eps st = [st]"
| "ms (Grp n a) (s, g) =
     map (\<lambda>(r, g'). (r, g' @ [(n, take (length s - length r) s)])) (ms a (s, g))"

text \<open>\<^verbatim>\<open>re.match\<close>: the first outcome at the start of the text; group 0 is the whole match.\<close>

definition re_match :: "re \<Rightarrow> string \<Rightarrow> (string \<times> caps) option" where
  "re_match r s = (case ms (Grp ''0'' r) (s, []) of [] \<Rightarrow> None | st # _ \<Rightarrow> Some st)"

text \<open>\<^verbatim>\<open>re.search\<close>: the first start position, from the left, at which the pattern matches.\<close>

fun re_search :: "re \<Rightarrow> string \<Rightarrow> (string \<times> caps) option" where
  "re_search r [] = re_match r []"
| "re_search r (c # cs) =
     (case re_match r (c # cs) of Some m \<Rightarrow> Some m | None \<Rightarrow> re_search r cs)"

definition match_group :: "string \<times> caps \<Rightarrow> string \<Rightarrow> string" where
  "match_group m n = (case map_of (snd m) n of Some t \<Rightarrow> t | None \<Rightarrow> [])"

definition chr :: "char \<Rightarrow> re" where
  "chr c = Cls (\<lambda>x. x = c)"

definition chr_i :: "char \<Rightarrow> re" where
  "chr_i c = Cls (\<lambda>x. lower_char x = lower_char c)"

definition seqs :: "re list \<Rightarrow> re" where
  "seqs rs = foldr Seq rs Eps"

fun alts :: "re list \<Rightarrow> re" where
  "alts [] = Cls (\<lambda>_. False)"
| "alts [r] = r"
| "alts (r # rs) = Alt r (alts rs)"

definition lit_i :: "string \<Rightarrow> re" where
  "lit_i s = seqs (map chr_i s)"

definition rep1 :: "(char \<Rightarrow> bool) \<Rightarrow> re" where
  "rep1 p = Seq (Cls p) (Star p)"

definition opt_re :: "re \<Rightarrow> re" where
  "opt_re r = Alt r Eps"


section \<open>Errors and numbers\<close>

datatype error = ValueError | IndexError

text \<open>
  \<^verbatim>\<open>float(s)\<close> on the texts the extractor passes to it: digits with at most one point
  (the patterns \<^verbatim>\<open>[\d,]+\.?\d*\<close> admit nothing else once the commas are removed).  A text
  with no digit raises \<^verbatim>\<open>ValueError\<close>.  The value is kept as the exact decimal the text
  denotes; the Python float is the double nearest to it.
\<close>

definition digit_val :: "char \<Rightarrow> nat" where
  "digit_val c = code_point c - 48"

definition nat_of_digits :: "string \<Rightarrow> nat" where
  "nat_of_digits s = foldl (\<lambda>a c. 10 * a + digit_val c) 0 s"

definition float_of :: "string \<Rightarrow> error + rat" where
  "float_of s =
     (let ip = takeWhile isdigit s; rest = dropWhile isdigit s in
      case rest of
        [] \<Rightarrow> if ip = [] then Inl ValueError else Inr (of_nat (nat_of_digits ip))
      | c # fp \<Rightarrow>
          if c = CHR ''.'' \<and> list_all isdigit fp \<and> (ip \<noteq> [] \<or> fp \<noteq> [])
          then Inr (of_nat (nat_of_digits (ip @ fp)) / 10 ^ length fp)
          else Inl ValueError)"

section \<open>Dates: \<^verbatim>\<open>datetime.strptime\<close> and \<^verbatim>\<open>strftime\<close>\<close>

text \<open>
  \<^verbatim>\<open>strptime\<close> turns the format into a pattern, one group per directive and \<^verbatim>\<open>\s+\<close> for
  each run of white space, matches it case-insensitively at the start of the text, and
  raises \<^verbatim>\<open>ValueError\<close> when there is no match, when text is left over, or when the
  fields are not a date of the calendar.  Month names are those of the C locale.
\<close>

definition f_month :: "string list" where
  "f_month = [''january'', ''february'', ''march'', ''april'', ''may'', ''june'', ''july'',
     ''august'', ''september'', ''october'', ''november'', ''december'']"

definition a_month :: "string list" where
  "a_month = [''jan'', ''feb'', ''mar'', ''apr'', ''may'', ''jun'', ''jul'', ''aug'', ''sep'',
     ''oct'', ''nov'', ''dec'']"

definition char_range :: "char \<Rightarrow> char \<Rightarrow> re" where
  "char_range a b = Cls (\<lambda>c. code_point a \<le> code_point c \<and> code_point c \<le> code_point b)"

definition seqToRE :: "string list \<Rightarrow> string \<Rightarrow> re" where
  "seqToRE to_convert directive =
     Grp directive (alts (map lit_i (sort_key (\<lambda>v. - int (length v)) to_convert)))"

definition directive_re :: "char \<Rightarrow> re option" where
  "directive_re d =
    (if d = CHR ''d'' then Some (Grp ''d'' (alts
        [Seq (chr CHR ''3'') (char_range CHR ''0'' CHR ''1''),
         Seq (char_range CHR ''1'' CHR ''2'') (Cls isdigit),
         Seq (chr CHR ''0'') (char_range CHR ''1'' CHR ''9''),
         char_range CHR ''1'' CHR ''9'',
         Seq (chr CHR '' '') (char_range CHR ''1'' CHR ''9'')]))
     else if d = CHR ''m'' then Some (Grp ''m'' (alts
        [Seq (chr CHR ''1'') (char_range CHR ''0'' CHR ''2''),
         Seq (chr CHR ''0'') (char_range CHR ''1'' CHR ''9''),
         char_range CHR ''1'' CHR ''9'']))
     else if d = CHR ''Y'' then
       Some (Grp ''Y'' (seqs [Cls isdigit, Cls isdigit, Cls isdigit, Cls isdigit]))
     else if d = CHR ''B'' then Some (seqToRE f_month ''B'')
     else if d = CHR ''b'' then Some (seqToRE a_month ''b'')
     else None)"

fun format_pattern :: "string \<Rightarrow> re option" where
  "format_pattern [] = Some Eps"
| "format_pattern [c] =
     (if c = CHR ''%'' then None
      else Some (if isspace c then rep1 isspace else chr_i c))"
| "format_pattern (c # d # fmt) =
     (if c = CHR ''%'' then
        (case (directive_re d, format_pattern fmt) of
           (Some r, Some rs) \<Rightarrow> Some (Seq r rs)
         | _ \<Rightarrow> None)
      else if isspace c then
        (if isspace d then format_pattern (d # fmt)
         else map_option (Seq (rep1 isspace)) (format_pattern (d # fmt)))
      else map_option (Seq (chr_i c)) (format_pattern (d # fmt)))"

fun index_of :: "'a list \<Rightarrow> 'a \<Rightarrow> nat option" where
  "index_of [] x = None"
| "index_of (y # ys) x = (if x = y then Some 0 else map_option Suc (index_of ys x))"

definition int_of :: "string \<Rightarrow> nat" where
  "int_of s = nat_of_digits (strip s)"

definition is_leap :: "nat \<Rightarrow> bool" where
  "is_leap y = (y mod 4 = 0 \<and> (y mod 100 \<noteq> 0 \<or> y mod 400 = 0))"

definition days_in_month :: "nat \<Rightarrow> nat \<Rightarrow> nat" where
  "days_in_month y m =
     (if m = 2 then (if is_leap y then 29 else 28)
      else if m = 4 \<or> m = 6 \<or> m = 9 \<or> m = 11 then 30 else 31)"

record datetime =
  year :: nat
  month :: nat
  day :: nat

definition found_month :: "caps \<Rightarrow> nat" where
  "found_month found =
     (case map_of found ''B'' of
        Some t \<Rightarrow> (case index_of f_month (lower t) of Some i \<Rightarrow> Suc i | None \<Rightarrow> 1)
      | None \<Rightarrow>
     (case map_of found ''b'' of
        Some t \<Rightarrow> (case index_of a_month (lower t) of Some i \<Rightarrow> Suc i | None \<Rightarrow> 1)
      | None \<Rightarrow>
     (case map_of found ''m'' of Some t \<Rightarrow> int_of t | None \<Rightarrow> 1)))"

definition strptime :: "string \<Rightarrow> string \<Rightarrow> error + datetime" where
  "strptime data_string fmt =
     (case format_pattern fmt of
        None \<Rightarrow> Inl ValueError
      | Some format_regex \<Rightarrow>
     (case re_match format_regex data_string of
        None \<Rightarrow> Inl ValueError
      | Some (rest, found) \<Rightarrow>
          if rest \<noteq> [] then Inl ValueError
          else
            let y = (case map_of found ''Y'' of Some t \<Rightarrow> int_of t | None \<Rightarrow> 1900);
                m = found_month found;
                d = (case map_of found ''d'' of Some t \<Rightarrow> int_of t | None \<Rightarrow> 1)
            in if 1 \<le> y \<and> y \<le> 9999 \<and> 1 \<le> m \<and> m \<le> 12 \<and> 1 \<le> d \<and> d \<le> days_in_month y m
               then Inr \<lparr>year = y, month = m, day = d\<rparr>
               else Inl ValueError))"

fun zero_pad :: "nat \<Rightarrow> nat \<Rightarrow> string" where
  "zero_pad 0 n = []"
| "zero_pad (Suc k) n = zero_pad k (n div 10) @ [char_of (48 + n mod 10)]"

text \<open>
  \<^verbatim>\<open>dt.strftime('%Y-%m-%d')\<close>, the year written with four digits as the library
  documents it (some C libraries drop the leading zeros of a year below 1000).
\<close>

definition strftime_ymd :: "datetime \<Rightarrow> string" where
  "strftime_ymd dt = zero_pad 4 (year dt) @ ''-'' @ zero_pad 2 (month dt) @ ''-'' @ zero_pad 2 (day dt)"

text \<open>
  \<^verbatim>\<open>normalize_date\<close>: the commas are removed first; each format is tried on the result; a
  \<^verbatim>\<open>ValueError\<close> moves on to the next format, any other exception leaves the function.
\<close>

text \<open>
  \<^verbatim>\<open>
  def normalize_date(date_str):
      date_str = date_str.replace(',', '')
      for fmt in ['%B %d %Y', '%b %d %Y', '%m/%d/%Y']:
          try:
              dt = datetime.strptime(date_str, fmt)
              return dt.strftime('%Y-%m-%d')
          except ValueError:
              continue
      return date_str
  \<close>
\<close>

fun try_formats :: "string \<Rightarrow> string list \<Rightarrow> error + string" where
  "try_formats date_str [] = Inr date_str"
| "try_formats date_str (fmt # fmts) =
     (case strptime date_str fmt of
        Inr dt \<Rightarrow> Inr (strftime_ymd dt)
      | Inl e \<Rightarrow> if e = ValueError then try_formats date_str fmts else Inl e)"

definition date_formats :: "string list" where
  "date_formats = [''%B %d %Y'', ''%b %d %Y'', ''%m/%d/%Y'']"

definition normalize_date :: "string \<Rightarrow> error + string" where
  "normalize_date date_str = try_formats (remove_char CHR '','' date_str) date_formats"


section \<open>Metadata fields\<close>

text \<open>
  \<^verbatim>\<open>
  def extract_account_number(text):
      patterns = [
          r'Account Number:\s*(\*+\d+)',
          r'Account No:\s*(\*+\d+)',
          r'Acct#\s*(\*+\d+)',
      ]
      for pattern in patterns:
          match = re.search(pattern, text, re.IGNORECASE)
          if match:
              return match.group(1)
      return None
  \<close>
\<close>

definition mask_digits :: re where
  "mask_digits = Grp ''1'' (Seq (rep1 (\<lambda>c. c = CHR ''*'')) (rep1 isdigit))"

definition account_pattern :: "string \<Rightarrow> re" where
  "account_pattern label = seqs [lit_i label, Star isspace, mask_digits]"

definition account_number_patterns :: "re list" where
  "account_number_patterns =
     [account_pattern ''Account Number:'', account_pattern ''Account No:'', account_pattern ''Acct#'']"

fun first_group :: "re list \<Rightarrow> string \<Rightarrow> string option" where
  "first_group [] text = None"
| "first_group (pattern # patterns) text =
     (case re_search pattern text of
        Some m \<Rightarrow> Some (match_group m ''1'')
      | None \<Rightarrow> first_group patterns text)"

definition extract_account_number :: "string \<Rightarrow> string option" where
  "extract_account_number text = first_group account_number_patterns text"







text \<open>The keys \<^verbatim>\<open>from\<close> and \<^verbatim>\<open>to\<close> of the statement period.\<close>

record period =
  period_from :: "string option"
  period_to :: "string option"



text \<open>
  \<^verbatim>\<open>
  def extract_statement_period(text):
      result = {"from": None, "to": None}
      date_range_pattern = r'([A-Za-z]+\s+\d{1,2},?\s+\d{4})\s*[-<en dash>]\s*([A-Za-z]+\s+\d{1,2},?\s+\d{4})'
      match = re.search(date_range_pattern, text)
      if match:
          try:
              result["from"] = normalize_date(match.group(1))
              result["to"] = normalize_date(match.group(2))
          except:
              pass
      return result
  \<close>
\<close>



record summary =
  opening_balance :: "rat option"
  closing_balance :: "rat option"
  total_credits :: "rat option"
  total_debits :: "rat option"

text \<open>
  \<^verbatim>\<open>
  def extract_summary(text):
      summary = {"opening_balance": None, "closing_balance": None,
                 "total_credits": None, "total_debits": None}
      patterns = {
          "opening_balance": r'Opening Balance[^$]*\$?([\d,]+\.?\d*)',
          "closing_balance": r'Closing Balance[^$]*\$?([\d,]+\.?\d*)',
          "total_credits": r'Total Credits[^$]*\$?([\d,]+\.?\d*)',
          "total_debits": r'Total Debits[^$]*\$?([\d,]+\.?\d*)',
      }
      for key, pattern in patterns.items():
          match = re.search(pattern, text, re.IGNORECASE)
          if match:
              try:
                  summary[key] = float(match.group(1).replace(',', ''))
              except ValueError:
                  pass
      return summary
  \<close>
\<close>

definition amount_group :: re where
  "amount_group = Grp ''1'' (seqs [rep1 (\<lambda>c. isdigit c \<or> c = CHR '',''), opt_re (chr CHR ''.''),
     Star isdigit])"

definition summary_pattern :: "string \<Rightarrow> re" where
  "summary_pattern label =
     seqs [lit_i label, Star (\<lambda>c. c \<noteq> CHR ''$''), opt_re (chr CHR ''$''), amount_group]"

text \<open>
  The handler of the numeric parse catches \<^verbatim>\<open>ValueError\<close>, the only exception
  \<open>float_of\<close> raises.
\<close>

definition summary_field :: "string \<Rightarrow> string \<Rightarrow> rat option" where
  "summary_field label text =
     (case re_search (summary_pattern label) text of
        None \<Rightarrow> None
      | Some m \<Rightarrow>
          (case float_of (remove_char CHR '','' (match_group m ''1'')) of
             Inr v \<Rightarrow> Some v
           | Inl e \<Rightarrow> None))"

definition extract_summary :: "string \<Rightarrow> summary" where
  "extract_summary text =
     \<lparr>opening_balance = summary_field ''Opening Balance'' text,
      closing_balance = summary_field ''Closing Balance'' text,
      total_credits = summary_field ''Total Credits'' text,
      total_debits = summary_field ''Total Debits'' text\<rparr>"

section \<open>Transaction tables\<close>

type_synonym cell = "string option"
type_synonym table = "cell list list"

record transaction =
  date :: "string option"
  description :: "string option"
  amount :: "rat option"
  balance :: "rat option"
  type :: "string option"

text \<open>
  \<^verbatim>\<open>
  def parse_amount(amount_str):
      amount_str = amount_str.strip()
      is_debit = amount_str.startswith('-') or amount_str.startswith('($')
      match = re.search(r'[\d,]+\.?\d*', amount_str.replace('$', ''))
      if match:
          value = float(match.group().replace(',', ''))
          return (-value if is_debit else value, "debit" if is_debit else "credit")
      return (None, None)

  def parse_balance(balance_str):
      match = re.search(r'[\d,]+\.?\d*', balance_str.replace('$', ''))
      if match:
          return float(match.group().replace(',', ''))
      return None
  \<close>
\<close>

definition numeric_run :: re where
  "numeric_run = seqs [rep1 (\<lambda>c. isdigit c \<or> c = CHR '',''), opt_re (chr CHR ''.''), Star isdigit]"

definition parse_amount :: "string \<Rightarrow> error + (rat option \<times> string option)" where
  "parse_amount amount_str0 =
     (let amount_str = strip amount_str0;
          is_debit = (startswith amount_str ''-'' \<or> startswith amount_str ''($'')
      in case re_search numeric_run (remove_char CHR ''$'' amount_str) of
           Some m \<Rightarrow>
             (case float_of (remove_char CHR '','' (match_group m ''0'')) of
                Inl e \<Rightarrow> Inl e
              | Inr v \<Rightarrow> Inr (Some (if is_debit then - v else v),
                               Some (if is_debit then ''debit'' else ''credit'')))
         | None \<Rightarrow> Inr (None, None))"

definition parse_balance :: "string \<Rightarrow> error + rat option" where
  "parse_balance balance_str =
     (case re_search numeric_run (remove_char CHR ''$'' balance_str) of
        Some m \<Rightarrow>
          (case float_of (remove_char CHR '','' (match_group m ''0'')) of
             Inl e \<Rightarrow> Inl e
           | Inr v \<Rightarrow> Inr (Some v))
      | None \<Rightarrow> Inr None)"

text \<open>
  \<^verbatim>\<open>
  def parse_transaction_table(table):
      transactions = []
      if not table or len(table) < 2:
          return transactions
      headers = [str(cell).lower().strip() if cell else "" for cell in table[0]]
      col_map = {}
      for i, h in enumerate(headers):
          if 'date' in h:
              col_map['date'] = i
          elif 'description' in h:
              col_map['description'] = i
          elif 'amount' in h:
              col_map['amount'] = i
          elif 'balance' in h:
              col_map['balance'] = i
      for row in table[1:]:
          if not row or all(not cell for cell in row):
              continue
          trans = {"date": None, "description": None, "amount": None,
                   "balance": None, "type": None}
          if 'date' in col_map:
              trans["date"] = normalize_date(str(row[col_map['date']] or ""))
          if 'description' in col_map:
              trans["description"] = str(row[col_map['description']] or "").strip()
          if 'amount' in col_map:
              amount_str = str(row[col_map['amount']] or "")
              trans["amount"], trans["type"] = parse_amount(amount_str)
          if 'balance' in col_map:
              balance_str = str(row[col_map['balance']] or "")
              trans["balance"] = parse_balance(balance_str)
          if trans["date"] or trans["description"]:
              transactions.append(trans)
      return transactions
  \<close>
\<close>

text \<open>\<^verbatim>\<open>not cell\<close>: an absent cell or an empty text.\<close>

definition falsy :: "string option \<Rightarrow> bool" where
  "falsy cell = (cell = None \<or> cell = Some [])"

definition header_cell :: "cell \<Rightarrow> string" where
  "header_cell cell = (if falsy cell then [] else strip (lower (the cell)))"

record col_map =
  date_col :: "nat option"
  description_col :: "nat option"
  amount_col :: "nat option"
  balance_col :: "nat option"

definition map_column :: "col_map \<Rightarrow> nat \<times> string \<Rightarrow> col_map" where
  "map_column cm ih =
     (let i = fst ih; h = snd ih in
      if contains ''date'' h then cm\<lparr>date_col := Some i\<rparr>
      else if contains ''description'' h then cm\<lparr>description_col := Some i\<rparr>
      else if contains ''amount'' h then cm\<lparr>amount_col := Some i\<rparr>
      else if contains ''balance'' h then cm\<lparr>balance_col := Some i\<rparr>
      else cm)"

definition find_columns :: "string list \<Rightarrow> col_map" where
  "find_columns headers =
     foldl map_column
       \<lparr>date_col = None, description_col = None, amount_col = None, balance_col = None\<rparr>
       (enumerate 0 headers)"

text \<open>\<^verbatim>\<open>str(row[i] or "")\<close>: an index past the end of the row raises \<^verbatim>\<open>IndexError\<close>.\<close>

definition cell_text :: "cell list \<Rightarrow> nat \<Rightarrow> error + string" where
  "cell_text row i =
     (if i < length row then Inr (if falsy (row ! i) then [] else the (row ! i))
      else Inl IndexError)"

definition build_transaction :: "col_map \<Rightarrow> cell list \<Rightarrow> error + transaction" where
  "build_transaction cm row =
     (let txn = \<lparr>date = None, description = None, amount = None, balance = None, type = None\<rparr> in
      case (case date_col cm of
              None \<Rightarrow> Inr txn
            | Some i \<Rightarrow> (case cell_text row i of Inl e \<Rightarrow> Inl e | Inr s \<Rightarrow>
                (case normalize_date s of Inl e \<Rightarrow> Inl e | Inr d \<Rightarrow> Inr (txn\<lparr>date := Some d\<rparr>)))) of
        Inl e \<Rightarrow> Inl e
      | Inr txn \<Rightarrow>
      case (case description_col cm of
              None \<Rightarrow> Inr txn
            | Some i \<Rightarrow> (case cell_text row i of Inl e \<Rightarrow> Inl e | Inr s \<Rightarrow>
                Inr (txn\<lparr>description := Some (strip s)\<rparr>))) of
        Inl e \<Rightarrow> Inl e
      | Inr txn \<Rightarrow>
      case (case amount_col cm of
              None \<Rightarrow> Inr txn
            | Some i \<Rightarrow> (case cell_text row i of Inl e \<Rightarrow> Inl e | Inr s \<Rightarrow>
                (case parse_amount s of Inl e \<Rightarrow> Inl e
                 | Inr av \<Rightarrow> Inr (txn\<lparr>amount := fst av, type := snd av\<rparr>)))) of
        Inl e \<Rightarrow> Inl e
      | Inr txn \<Rightarrow>
      (case balance_col cm of
         None \<Rightarrow> Inr txn
       | Some i \<Rightarrow> (case cell_text row i of Inl e \<Rightarrow> Inl e | Inr s \<Rightarrow>
           (case parse_balance s of Inl e \<Rightarrow> Inl e
            | Inr b \<Rightarrow> Inr (txn\<lparr>balance := b\<rparr>)))))"

definition retained :: "transaction \<Rightarrow> bool" where
  "retained txn = (\<not> falsy (date txn) \<or> \<not> falsy (description txn))"

fun process_rows :: "col_map \<Rightarrow> cell list list \<Rightarrow> transaction list \<Rightarrow> error + transaction list" where
  "process_rows cm [] transactions = Inr transactions"
| "process_rows cm (row # rows) transactions =
     (if row = [] \<or> list_all falsy row then process_rows cm rows transactions
      else case build_transaction cm row of
             Inl e \<Rightarrow> Inl e
           | Inr txn \<Rightarrow>
               process_rows cm rows (if retained txn then transactions @ [txn] else transactions))"

definition parse_transaction_table :: "table \<Rightarrow> error + transaction list" where
  "parse_transaction_table table =
     (if table = [] \<or> length table < 2 then Inr []
      else process_rows (find_columns (map header_cell (hd table))) (tl table) [])"

section \<open>The statement record\<close>

text \<open>
  \<^verbatim>\<open>
  def extract_bank_statement(pdf_path):
      result = {...}
      with pdfplumber.open(pdf_path) as pdf:
          full_text = ""
          for page in pdf.pages:
              text = page.extract_text() or ""
              full_text += text + "\n"
              tables = page.extract_tables()
              for table in tables:
                  if table and len(table) > 1:
                      headers = [str(cell).lower() if cell else "" for cell in table[0]]
                      if any(h in headers for h in ['date', 'description', 'amount', 'balance']):
                          result["transactions"] = parse_transaction_table(table)
          result["bank_name"] = extract_bank_name(full_text)
          result["account_holder"] = extract_account_holder(full_text)
          result["account_number"] = extract_account_number(full_text)
          result["statement_period"] = extract_statement_period(full_text)
          result["summary"] = extract_summary(full_text)
      return result
  \<close>
\<close>


record statement =
  bank_name :: "string option"
  account_holder :: "string option"
  account_number :: "string option"
  statement_period :: period
  summary :: summary
  transactions :: "transaction list"

definition header_tokens :: "string list" where
  "header_tokens = [''date'', ''description'', ''amount'', ''balance'']"

definition lowered :: "cell \<Rightarrow> string" where
  "lowered cell = (if falsy cell then [] else lower (the cell))"

text \<open>
  The test of \<^verbatim>\<open>extract_bank_statement\<close> on each table: \<^verbatim>\<open>h in headers\<close> looks a
  token up in the list of lower-cased header cells.
\<close>

definition looks_like_transactions :: "table \<Rightarrow> bool" where
  "looks_like_transactions table =
     (table \<noteq> [] \<and> length table > 1 \<and>
      (let headers = map lowered (hd table) in
       list_ex (\<lambda>h. h \<in> set headers) header_tokens))"

text \<open>
  The test as the specification words it: at least a header row and a data row, and some
  lower-cased header cell has one of the tokens as a substring.
\<close>

definition qualifies_as_specified :: "table \<Rightarrow> bool" where
  "qualifies_as_specified table =
     (2 \<le> length table \<and>
      list_ex (\<lambda>cell. list_ex (\<lambda>tok. contains tok (lowered cell)) header_tokens) (hd table))"





section \<open>The decryption boundary\<close>

text \<open>
  \<^verbatim>\<open>decrypt_pdf\<close> calls the base-64 codec, the file system and the PDF library.  Their
  outcomes are parameters of the model.  An \<open>Exception\<close> carries its message and is what
  \<^verbatim>\<open>except Exception\<close> catches; \<open>Interrupt\<close> stands for the throwables that clause
  lets through.
\<close>

text \<open>
  \<^verbatim>\<open>
  def decrypt_pdf(input_base64, password):
      try:
          pdf_bytes = base64.b64decode(input_base64)
          with tempfile.NamedTemporaryFile(delete=False, suffix='.pdf') as input_file:
              input_file.write(pdf_bytes)
              input_path = input_file.name
          try:
              reader = PdfReader(input_path)
              if reader.is_encrypted:
                  if not reader.decrypt(password):
                      return {"success": False,
                              "error": "Incorrect password. Please check and try again.",
                              "is_encrypted": True}
              writer = PdfWriter()
              ...   (the pages are copied, written, read back and encoded)
              return {"success": True, "decrypted_base64": decrypted_base64,
                      "is_encrypted": reader.is_encrypted, "num_pages": len(reader.pages)}
          except Exception as e:
              error_msg = str(e).lower()
              if 'password' in error_msg or 'encrypt' in error_msg or 'decrypt' in error_msg:
                  return {"success": False,
                          "error": "This PDF requires a password. Please enter the correct password.",
                          "is_encrypted": True}
              raise
      except Exception as e:
          return {"success": False, "error": f"Failed to process PDF: {str(e)}",
                  "is_encrypted": False}
  \<close>
\<close>

datatype raised = Exception string | Interrupt

record reader =
  reader_is_encrypted :: bool
  reader_decrypt :: "string \<Rightarrow> raised + nat"

record library =
  b64decode :: "string \<Rightarrow> raised + string"
  write_input :: "string \<Rightarrow> raised + string"
  PdfReader :: "string \<Rightarrow> raised + reader"
  copy_pages :: "reader \<Rightarrow> raised + string \<times> nat"

datatype response =
    Failure (error: string) (is_encrypted: bool)
  | Success (decrypted_base64: string) (is_encrypted: bool) (num_pages: nat)

definition password_related :: "string \<Rightarrow> bool" where
  "password_related msg =
     (let error_msg = lower msg in
      contains ''password'' error_msg \<or> contains ''encrypt'' error_msg \<or> contains ''decrypt'' error_msg)"

definition read_and_copy :: "library \<Rightarrow> string \<Rightarrow> string \<Rightarrow> raised + response" where
  "read_and_copy lib input_path password =
     (case PdfReader lib input_path of
        Inl e \<Rightarrow> Inl e
      | Inr rd \<Rightarrow>
          (case (if reader_is_encrypted rd
                 then (case reader_decrypt rd password of Inl e \<Rightarrow> Inl e | Inr r \<Rightarrow> Inr (r = 0))
                 else Inr False) of
             Inl e \<Rightarrow> Inl e
           | Inr wrong \<Rightarrow>
               if wrong then Inr (Failure ''Incorrect password. Please check and try again.'' True)
               else (case copy_pages lib rd of
                       Inl e \<Rightarrow> Inl e
                     | Inr (b64, n) \<Rightarrow> Inr (Success b64 (reader_is_encrypted rd) n))))"

definition decrypt_pdf :: "library \<Rightarrow> string \<Rightarrow> string \<Rightarrow> raised + response" where
  "decrypt_pdf lib input_base64 password =
     (case (case b64decode lib input_base64 of
              Inl e \<Rightarrow> Inl e
            | Inr pdf_bytes \<Rightarrow>
                (case write_input lib pdf_bytes of
                   Inl e \<Rightarrow> Inl e
                 | Inr input_path \<Rightarrow>
                     (case read_and_copy lib input_path password of
                        Inl (Exception msg) \<Rightarrow>
                          if password_related msg
                          then Inr (Failure
                            ''This PDF requires a password. Please enter the correct password.'' True)
                          else Inl (Exception msg)
                      | Inl Interrupt \<Rightarrow> Inl Interrupt
                      | Inr r \<Rightarrow> Inr r))) of
        Inl (Exception msg) \<Rightarrow> Inr (Failure (''Failed to process PDF: '' @ msg) False)
      | Inl Interrupt \<Rightarrow> Inl Interrupt
      | Inr r \<Rightarrow> Inr r)"

section \<open>Notions of the specification\<close>

text \<open>A masked number: one or more asterisks, then one or more digits.\<close>

definition masked_number :: "string \<Rightarrow> bool" where
  "masked_number a =
     (\<exists>st dg. a = st @ dg \<and> st \<noteq> [] \<and> list_all (\<lambda>c. c = CHR ''*'') st \<and> dg \<noteq> [] \<and> list_all isdigit dg)"

text \<open>
  At offset \<open>k\<close> the text holds the label, in any letter case, then white space
  (possibly none), then the masked number \<open>a\<close>.
\<close>

definition labelled_number_at :: "string \<Rightarrow> string \<Rightarrow> nat \<Rightarrow> string \<Rightarrow> bool" where
  "labelled_number_at label text k a =
     (\<exists>pre lab ws post. text = pre @ lab @ ws @ a @ post \<and> length pre = k \<and>
        lower lab = lower label \<and> list_all isspace ws \<and> masked_number a)"

definition labelled_number :: "string \<Rightarrow> string \<Rightarrow> string \<Rightarrow> bool" where
  "labelled_number label text a = (\<exists>k. labelled_number_at label text k a)"

text \<open>
  The result \<open>r\<close> is the longest masked number behind the leftmost occurrence of
  the label that has one.
\<close>

definition first_labelled_number :: "string \<Rightarrow> string \<Rightarrow> string option \<Rightarrow> bool" where
  "first_labelled_number label text r =
     (\<exists>k a. r = Some a \<and> labelled_number_at label text k a \<and>
        (\<forall>k' a'. labelled_number_at label text k' a' \<longrightarrow>
           k \<le> k' \<and> (k' = k \<longrightarrow> length a' \<le> length a)))"





text \<open>
  The text of an amount: digits and separators, at least one, then an optional point and
  further digits.
\<close>

definition amount_text :: "string \<Rightarrow> bool" where
  "amount_text n =
     (\<exists>a p b. n = a @ p @ b \<and> a \<noteq> [] \<and> list_all (\<lambda>c. isdigit c \<or> c = CHR '','') a \<and>
        (p = [] \<or> p = ''.'') \<and> list_all isdigit b)"

text \<open>
  At offset \<open>k\<close> the text holds the label, in any letter case, then characters other
  than the dollar sign, then an optional dollar sign, then the amount text \<open>n\<close>.
\<close>

definition labelled_amount_at :: "string \<Rightarrow> string \<Rightarrow> nat \<Rightarrow> string \<Rightarrow> bool" where
  "labelled_amount_at label text k n =
     (\<exists>pre lab fill dol post. text = pre @ lab @ fill @ dol @ n @ post \<and> length pre = k \<and>
        lower lab = lower label \<and> list_all (\<lambda>c. c \<noteq> CHR ''$'') fill \<and>
        (dol = [] \<or> dol = ''$'') \<and> amount_text n)"

definition labelled_amount :: "string \<Rightarrow> string \<Rightarrow> string \<Rightarrow> bool" where
  "labelled_amount label text n = (\<exists>k. labelled_amount_at label text k n)"

text \<open>The amount text \<open>n\<close> stands behind the leftmost occurrence of the label that has one.\<close>

definition first_labelled_amount :: "string \<Rightarrow> string \<Rightarrow> string \<Rightarrow> bool" where
  "first_labelled_amount label text n =
     (\<exists>k. labelled_amount_at label text k n \<and>
        (\<forall>k' n'. labelled_amount_at label text k' n' \<longrightarrow> k \<le> k'))"

text \<open>The text \<open>rest\<close> does not go on with a character of the class \<open>p\<close>.\<close>

definition no_more :: "(char \<Rightarrow> bool) \<Rightarrow> string \<Rightarrow> bool" where
  "no_more p rest = (case rest of [] \<Rightarrow> True | c # cs \<Rightarrow> \<not> p c)"

section \<open>Values for the examples\<close>


text \<open>
  A library in which every call succeeds and the document is encrypted under the password
  \<^verbatim>\<open>secret\<close>: \<^verbatim>\<open>decrypt\<close> answers 0 to any other password.
\<close>

definition locked_reader :: reader where
  "locked_reader =
     \<lparr>reader_is_encrypted = True,
      reader_decrypt = (\<lambda>password. Inr (if password = ''secret'' then 2 else 0))\<rparr>"

definition sample_library :: library where
  "sample_library =
     \<lparr>b64decode = (\<lambda>input_base64. Inr input_base64),
      write_input = (\<lambda>pdf_bytes. Inr ''/tmp/input.pdf''),
      PdfReader = (\<lambda>input_path. Inr locked_reader),
      copy_pages = (\<lambda>rd. Inr (''JVBERi0='', 1))\<rparr>"

section \<open>What a pattern matches\<close>

text \<open>
  \<open>matches r u g\<close>: the text \<open>u\<close> belongs to the pattern \<open>r\<close>, with the groups \<open>g\<close>
  captured on the way.  This is the reading of a pattern that does not depend on the
  order in which a matcher tries the alternatives.
\<close>

inductive matches :: "re \<Rightarrow> string \<Rightarrow> caps \<Rightarrow> bool" where
  m_cls: "p c \<Longrightarrow> matches (Cls p) [c] []"
| m_star: "list_all p u \<Longrightarrow> matches (Star p) u []"
| m_seq: "matches a u gu \<Longrightarrow> matches b v gv \<Longrightarrow> matches (Seq a b) (u @ v) (gu @ gv)"
| m_alt1: "matches a u gu \<Longrightarrow> matches (Alt a b) u gu"
| m_alt2: "matches b u gu \<Longrightarrow> matches (Alt a b) u gu"
| m_eps: "matches Eps [] []"
| m_grp: "matches a u gu \<Longrightarrow> matches (Grp n a) u (gu @ [(n, u)])"

inductive_cases m_clsE: "matches (Cls p) u g"
inductive_cases m_starE: "matches (Star p) u g"
inductive_cases m_seqE: "matches (Seq a b) u g"
inductive_cases m_altE: "matches (Alt a b) u g"
inductive_cases m_epsE: "matches Eps u g"
inductive_cases m_grpE: "matches (Grp n a) u g"

section \<open>The matcher and the patterns\<close>

text \<open>Every outcome the matcher lists is a match of the pattern, and every match is listed.\<close>

lemma star_rests_iff: "r \<in> set (star_rests p s) \<longleftrightarrow> (\<exists>u. s = u @ r \<and> list_all p u)"
proof (induction s)
  case Nil
  then show ?case by auto
next
  case (Cons c cs)
  show ?case
  proof
    assume "r \<in> set (star_rests p (c # cs))"
    then consider "p c" "r \<in> set (star_rests p cs)" | "r = c # cs"
      by (auto split: if_splits)
    then show "\<exists>u. c # cs = u @ r \<and> list_all p u"
    proof cases
      case 1
      then obtain u where "cs = u @ r" "list_all p u" using Cons.IH by auto
      then have "c # cs = (c # u) @ r \<and> list_all p (c # u)" using 1 by simp
      then show ?thesis by blast
    next
      case 2
      then have "c # cs = [] @ r \<and> list_all p []" by simp
      then show ?thesis by blast
    qed
  next
    assume "\<exists>u. c # cs = u @ r \<and> list_all p u"
    then obtain u where u: "c # cs = u @ r" "list_all p u" by blast
    show "r \<in> set (star_rests p (c # cs))"
    proof (cases u)
      case Nil
      then show ?thesis using u by auto
    next
      case (Cons x xs)
      then have "x = c" "cs = xs @ r" "p c" "list_all p xs" using u by auto
      then show ?thesis using Cons.IH by auto
    qed
  qed
qed

lemma ms_sound:
  "(r', g') \<in> set (ms r (s, g)) \<Longrightarrow> \<exists>u gu. s = u @ r' \<and> g' = g @ gu \<and> matches r u gu"
proof (induction r arbitrary: s g r' g')
  case (Cls p)
  then show ?case by (auto split: list.splits if_splits intro: matches.intros)
next
  case (Star p)
  then have "r' \<in> set (star_rests p s)" "g' = g" by auto
  then obtain u where "s = u @ r'" "list_all p u" using star_rests_iff by blast
  then show ?case using \<open>g' = g\<close> by (auto intro: matches.intros)
next
  case (Seq a b)
  then obtain ms' mg where mid: "(ms', mg) \<in> set (ms a (s, g))" "(r', g') \<in> set (ms b (ms', mg))"
    by auto
  from Seq.IH(1)[OF mid(1)] obtain u gu where u: "s = u @ ms'" "mg = g @ gu" "matches a u gu" by blast
  from Seq.IH(2)[OF mid(2)] obtain v gv where v: "ms' = v @ r'" "g' = mg @ gv" "matches b v gv" by blast
  have "s = (u @ v) @ r' \<and> g' = g @ (gu @ gv) \<and> matches (Seq a b) (u @ v) (gu @ gv)"
    using u v by (auto intro: matches.intros)
  then show ?case by blast
next
  case (Alt a b)
  then show ?case by (fastforce intro: matches.intros)
next
  case Eps
  then show ?case by (auto intro: matches.intros)
next
  case (Grp n a)
  then obtain gi where gi: "(r', gi) \<in> set (ms a (s, g))" "g' = gi @ [(n, take (length s - length r') s)]"
    by auto
  from Grp.IH gi(1) obtain u gu where u: "s = u @ r'" "gi = g @ gu" "matches a u gu" by blast
  then have "take (length s - length r') s = u" by simp
  then have "s = u @ r' \<and> g' = g @ (gu @ [(n, u)]) \<and> matches (Grp n a) u (gu @ [(n, u)])"
    using u gi(2) by (auto intro: matches.intros)
  then show ?case by blast
qed

lemma ms_complete:
  "matches r u gu \<Longrightarrow> (r', g @ gu) \<in> set (ms r (u @ r', g))"
proof (induction r u gu arbitrary: r' g rule: matches.induct)
  case (m_star p u)
  then show ?case using star_rests_iff[of r' p "u @ r'"] by auto
next
  case (m_seq a u gu b v gv)
  have "(v @ r', g @ gu) \<in> set (ms a (u @ v @ r', g))" using m_seq.IH(1) by simp
  moreover have "(r', (g @ gu) @ gv) \<in> set (ms b (v @ r', g @ gu))" by (rule m_seq.IH(2))
  ultimately show ?case by force
next
  case (m_grp a u gu n)
  then have "(r', g @ gu) \<in> set (ms a (u @ r', g))" by simp
  then show ?case by force
qed auto


lemma re_match_Some:
  assumes "re_match r s = Some (rest, g)"
  shows "\<exists>u gu. s = u @ rest \<and> g = gu @ [(''0'', u)] \<and> matches r u gu"
proof -
  from assms have "(rest, g) \<in> set (ms (Grp ''0'' r) (s, []))"
    by (auto simp: re_match_def split: list.splits)
  then obtain u g0 where u: "s = u @ rest" "g = [] @ g0" "matches (Grp ''0'' r) u g0"
    using ms_sound by blast
  from u(3) obtain gu where "g0 = gu @ [(''0'', u)]" "matches r u gu"
    by (auto elim: m_grpE)
  with u show ?thesis by auto
qed

lemma re_match_None:
  assumes "re_match r s = None"
  shows "\<not> matches r u gu \<or> \<not> (\<exists>rest. s = u @ rest)"
proof (rule ccontr)
  assume "\<not> ?thesis"
  then obtain rest where m: "matches r u gu" and s: "s = u @ rest" by blast
  from m have "matches (Grp ''0'' r) u (gu @ [(''0'', u)])" by (rule m_grp)
  then have "(rest, [] @ gu @ [(''0'', u)]) \<in> set (ms (Grp ''0'' r) (u @ rest, []))"
    by (rule ms_complete)
  with assms s show False by (auto simp: re_match_def split: list.splits)
qed


lemma re_search_leftmost:
  assumes "re_search r s = Some (rest, g)"
  shows "\<exists>pre u gu. s = pre @ u @ rest \<and> g = gu @ [(''0'', u)] \<and> matches r u gu \<and>
           (\<forall>pre' u' gu' rest'. s = pre' @ u' @ rest' \<and> matches r u' gu' \<longrightarrow> length pre \<le> length pre')"
  using assms
proof (induction s)
  case Nil
  then have "re_match r [] = Some (rest, g)" by simp
  from re_match_Some[OF this] obtain u gu where
    "[] = [] @ u @ rest \<and> g = gu @ [(''0'', u)] \<and> matches r u gu" by auto
  moreover have "\<forall>pre' u' gu' rest'. [] = pre' @ u' @ rest' \<and> matches r u' gu' \<longrightarrow>
         length ([] :: string) \<le> length pre'"
    by simp
  ultimately show ?case by blast
next
  case (Cons c cs)
  show ?case
  proof (cases "re_match r (c # cs)")
    case None
    with Cons.prems have "re_search r cs = Some (rest, g)" by simp
    from Cons.IH[OF this] obtain pre u gu where
      t: "cs = pre @ u @ rest" "g = gu @ [(''0'', u)]" "matches r u gu"
      and least: "\<forall>pre' u' gu' rest'. cs = pre' @ u' @ rest' \<and> matches r u' gu' \<longrightarrow> length pre \<le> length pre'"
      by blast
    have "length (c # pre) \<le> length pre'" if d: "c # cs = pre' @ u' @ rest'" and m: "matches r u' gu'"
      for pre' u' gu' rest'
    proof (cases pre')
      case Nil
      with d re_match_None[OF None, of u' gu'] m show ?thesis by auto
    next
      case (Cons x xs)
      with d have "cs = xs @ u' @ rest'" by simp
      with least m have "length pre \<le> length xs" by blast
      with Cons show ?thesis by simp
    qed
    then have least': "\<forall>pre' u' gu' rest'. c # cs = pre' @ u' @ rest' \<and> matches r u' gu' \<longrightarrow>
         length (c # pre) \<le> length pre'"
      by blast
    have "c # cs = (c # pre) @ u @ rest" using t(1) by simp
    with t(2,3) least' show ?thesis by blast
  next
    case (Some m)
    with Cons.prems have "re_match r (c # cs) = Some (rest, g)" by simp
    from re_match_Some[OF this] obtain u gu where
      "c # cs = [] @ u @ rest \<and> g = gu @ [(''0'', u)] \<and> matches r u gu" by auto
    moreover have "\<forall>pre' u' gu' rest'. c # cs = pre' @ u' @ rest' \<and> matches r u' gu' \<longrightarrow>
         length ([] :: string) \<le> length pre'"
      by simp
    ultimately show ?thesis by blast
  qed
qed

lemma re_search_None:
  assumes "re_search r s = None"
  shows "\<not> matches r u gu \<or> \<not> (\<exists>pre rest. s = pre @ u @ rest)"
  using assms
proof (induction s)
  case Nil
  then have "re_match r [] = None" by simp
  from re_match_None[OF this, of u gu] show ?case by auto
next
  case (Cons c cs)
  then have n: "re_match r (c # cs) = None" and "re_search r cs = None"
    by (auto split: option.splits)
  then have IH: "\<not> matches r u gu \<or> \<not> (\<exists>pre rest. cs = pre @ u @ rest)" using Cons.IH by simp
  show ?case
  proof (rule ccontr)
    assume "\<not> ?thesis"
    then obtain pre rest where m: "matches r u gu" and s: "c # cs = pre @ u @ rest" by blast
    show False
    proof (cases pre)
      case Nil
      with s re_match_None[OF n, of u gu] m show False by auto
    next
      case (Cons x xs)
      with s have "cs = xs @ u @ rest" by simp
      with IH m show False by blast
    qed
  qed
qed

lemma re_search_found:
  assumes "matches r u gu"
  shows "\<exists>m. re_search r (pre @ u @ rest) = Some m"
proof (cases "re_search r (pre @ u @ rest)")
  case None
  from re_search_None[OF this, of u gu] assms show ?thesis by blast
qed simp

lemma matches_seqs_Nil: "matches (seqs []) u g \<longleftrightarrow> u = [] \<and> g = []"
  by (auto simp: seqs_def elim: m_epsE intro: m_eps)

lemma matches_seqs_Cons:
  "matches (seqs (r # rs)) u g \<longleftrightarrow>
     (\<exists>u1 g1 u2 g2. u = u1 @ u2 \<and> g = g1 @ g2 \<and> matches r u1 g1 \<and> matches (seqs rs) u2 g2)"
  unfolding seqs_def foldr.simps comp_def
  by (blast elim: m_seqE intro: m_seq)

lemma matches_chr_i: "matches (chr_i c) u g \<longleftrightarrow> g = [] \<and> (\<exists>x. u = [x] \<and> lower_char x = lower_char c)"
  by (auto simp: chr_i_def elim: m_clsE intro: m_cls)

lemma matches_chr: "matches (chr c) u g \<longleftrightarrow> g = [] \<and> u = [c]"
  by (auto simp: chr_def elim: m_clsE intro: m_cls)

lemma matches_lit_i: "matches (lit_i l) u g \<longleftrightarrow> g = [] \<and> lower u = lower l"
proof (induction l arbitrary: u g)
  case Nil
  then show ?case by (auto simp: lit_i_def matches_seqs_Nil lower_def)
next
  case (Cons c cs)
  have IH: "\<And>u g. matches (seqs (map chr_i cs)) u g \<longleftrightarrow> g = [] \<and> lower u = lower cs"
    using Cons.IH by (simp add: lit_i_def)
  show ?case
  proof
    assume "matches (lit_i (c # cs)) u g"
    then show "g = [] \<and> lower u = lower (c # cs)"
      unfolding lit_i_def list.map matches_seqs_Cons IH matches_chr_i
      by (auto simp: lower_def)
  next
    assume a: "g = [] \<and> lower u = lower (c # cs)"
    then obtain x xs where u: "u = [x] @ xs" "lower_char x = lower_char c" "lower xs = lower cs"
      by (cases u) (auto simp: lower_def)
    then have "\<exists>u1 g1 u2 g2. u = u1 @ u2 \<and> g = g1 @ g2 \<and>
        (g1 = [] \<and> (\<exists>x. u1 = [x] \<and> lower_char x = lower_char c)) \<and> g2 = [] \<and> lower u2 = lower cs"
      using a by blast
    then show "matches (lit_i (c # cs)) u g"
      unfolding lit_i_def list.map matches_seqs_Cons IH matches_chr_i by simp
  qed
qed

lemma matches_Star: "matches (Star p) u g \<longleftrightarrow> g = [] \<and> list_all p u"
  by (auto elim: m_starE intro: m_star)

lemma matches_Cls: "matches (Cls p) u g \<longleftrightarrow> g = [] \<and> (\<exists>c. u = [c] \<and> p c)"
  by (auto elim: m_clsE intro: m_cls)

lemma matches_rep1: "matches (rep1 p) u g \<longleftrightarrow> g = [] \<and> u \<noteq> [] \<and> list_all p u"
proof
  assume "matches (rep1 p) u g"
  then show "g = [] \<and> u \<noteq> [] \<and> list_all p u"
    unfolding rep1_def by (auto elim!: m_seqE simp: matches_Star matches_Cls)
next
  assume a: "g = [] \<and> u \<noteq> [] \<and> list_all p u"
  then obtain c cs where u: "u = [c] @ cs" "p c" "list_all p cs" by (cases u) auto
  have "matches (Seq (Cls p) (Star p)) ([c] @ cs) ([] @ [])"
    using u by (intro m_seq m_cls m_star)
  with a u show "matches (rep1 p) u g" by (simp add: rep1_def)
qed

lemma matches_opt_re: "matches (opt_re r) u g \<longleftrightarrow> matches r u g \<or> (u = [] \<and> g = [])"
  unfolding opt_re_def by (auto elim: m_altE m_epsE intro: matches.intros)

lemma matches_Grp: "matches (Grp n r) u g \<longleftrightarrow> (\<exists>gu. g = gu @ [(n, u)] \<and> matches r u gu)"
  by (auto elim: m_grpE intro: m_grp)

lemma matches_seqsI:
  "matches r u1 g1 \<Longrightarrow> matches (seqs rs) u2 g2 \<Longrightarrow> matches (seqs (r # rs)) (u1 @ u2) (g1 @ g2)"
  unfolding matches_seqs_Cons by blast

lemma matches_seqsE:
  assumes "matches (seqs (r # rs)) u g"
  obtains u1 g1 u2 g2 where "u = u1 @ u2" "g = g1 @ g2" "matches r u1 g1" "matches (seqs rs) u2 g2"
  using assms unfolding matches_seqs_Cons by blast

text \<open>
  The first outcome is the greedy one: where a pattern ends with the repetition of a
  class, the text left after its first outcome does not go on with that class.
\<close>

lemma star_rests_hd: "star_rests p s \<noteq> [] \<and> hd (star_rests p s) = dropWhile p s"
  by (induction s) auto

lemma no_more_dropWhile: "no_more p (dropWhile p s)"
  by (induction s) (auto simp: no_more_def)

lemma hd_concat_map:
  assumes "concat (map f xs) \<noteq> []" and "\<And>x. x \<in> set xs \<Longrightarrow> f x \<noteq> [] \<Longrightarrow> P (hd (f x))"
  shows "P (hd (concat (map f xs)))"
  using assms
proof (induction xs)
  case Nil
  then show ?case by simp
next
  case (Cons x xs)
  show ?case
  proof (cases "f x = []")
    case True
    with Cons show ?thesis by simp
  next
    case False
    with Cons.prems(2)[of x] show ?thesis by simp
  qed
qed

lemma greedy_Star: "ms (Star p) st \<noteq> [] \<and> no_more p (fst (hd (ms (Star p) st)))"
proof -
  obtain s g where st: "st = (s, g)" by (cases st)
  have "hd (map (\<lambda>r. (r, g)) (star_rests p s)) = (dropWhile p s, g)"
    using star_rests_hd[of p s] by (simp add: hd_map)
  then show ?thesis using st star_rests_hd[of p s] by (simp add: no_more_dropWhile)
qed

lemma greedy_Seq:
  assumes "\<And>x. ms b x \<noteq> [] \<Longrightarrow> no_more p (fst (hd (ms b x)))" and "ms (Seq a b) st \<noteq> []"
  shows "no_more p (fst (hd (ms (Seq a b) st)))"
  using assms(2) assms(1) by (simp add: hd_concat_map[where P = "\<lambda>y. no_more p (fst y)"])

lemma greedy_Grp:
  assumes "\<And>x. ms a x \<noteq> [] \<Longrightarrow> no_more p (fst (hd (ms a x)))" and "ms (Grp n a) st \<noteq> []"
  shows "no_more p (fst (hd (ms (Grp n a) st)))"
proof -
  obtain s g where st: "st = (s, g)" by (cases st)
  with assms(2) have ne: "ms a (s, g) \<noteq> []" by simp
  then have "fst (hd (ms (Grp n a) (s, g))) = fst (hd (ms a (s, g)))"
    by (simp add: hd_map split: prod.splits)
  with assms(1)[OF ne] st show ?thesis by simp
qed

lemma ms_Seq_Eps: "ms (Seq a Eps) st = ms a st"
proof -
  have "ms Eps = (\<lambda>x. [x])" by (rule ext) simp
  then show ?thesis by (simp add: concat_map_singleton)
qed

lemma greedy_rep1:
  assumes "ms (rep1 p) st \<noteq> []"
  shows "no_more p (fst (hd (ms (rep1 p) st)))"
  unfolding rep1_def
  by (rule greedy_Seq) (use assms greedy_Star in \<open>simp_all add: rep1_def\<close>)

lemma re_match_greedy:
  assumes "\<And>x. ms r x \<noteq> [] \<Longrightarrow> no_more p (fst (hd (ms r x)))" and "re_match r s = Some (rest, g)"
  shows "no_more p rest"
proof -
  from assms(2) have ne: "ms (Grp ''0'' r) (s, []) \<noteq> []" and hd: "hd (ms (Grp ''0'' r) (s, [])) = (rest, g)"
    by (auto simp: re_match_def split: list.splits)
  from greedy_Grp[of r p "''0''" "(s, [])", OF assms(1) ne] hd show ?thesis by simp
qed

lemma re_search_greedy:
  assumes "\<And>x. ms r x \<noteq> [] \<Longrightarrow> no_more p (fst (hd (ms r x)))" and "re_search r s = Some (rest, g)"
  shows "no_more p rest"
  using assms(2)
proof (induction s)
  case Nil
  then show ?case using re_match_greedy[OF assms(1)] by simp
next
  case (Cons c cs)
  then show ?case using re_match_greedy[OF assms(1)] by (auto split: option.splits)
qed

lemma takeWhile_all_append:
  assumes "list_all p xs" and "no_more (\<lambda>c. p c) ys"
  shows "takeWhile p (xs @ ys) = xs"
  using assms by (induction xs) (auto simp: no_more_def split: list.splits)

lemma length_all_le_takeWhile:
  assumes "list_all p xs"
  shows "length xs \<le> length (takeWhile p (xs @ ys))"
  using assms by (induction xs) auto

lemma lower_same_length: "lower u = lower v \<Longrightarrow> length u = length v"
  unfolding lower_def by (rule map_eq_imp_length_eq)

section \<open>Amounts\<close>

lemma float_of_error: "float_of s = Inl e \<Longrightarrow> e = ValueError"
  by (auto simp: float_of_def Let_def split: list.splits if_splits)

lemma float_of_nonneg: "float_of s = Inr v \<Longrightarrow> 0 \<le> v"
  by (auto simp: float_of_def Let_def split: list.splits if_splits)

lemma parse_amount_result:
  "parse_amount s = Inl ValueError \<or> parse_amount s = Inr (None, None) \<or>
   (\<exists>v\<ge>0. parse_amount s =
      (if startswith (strip s) ''-'' \<or> startswith (strip s) ''($''
       then Inr (Some (- v), Some ''debit'') else Inr (Some v, Some ''credit'')))"
  unfolding parse_amount_def Let_def
  by (auto split: option.splits sum.splits dest: float_of_error float_of_nonneg)

lemma amount_searches:
  "re_search numeric_run (remove_char CHR ''$'' (strip ''-$89.99'')) = Some ([], [(''0'', ''89.99'')])"
  "re_search numeric_run (remove_char CHR ''$'' (strip ''$1,000.00'')) = Some ([], [(''0'', ''1,000.00'')])"
  "startswith (strip ''-$89.99'') ''-''"
  "\<not> startswith (strip ''$1,000.00'') ''-''"
  "\<not> startswith (strip ''$1,000.00'') ''($''"
  by code_simp+

lemma float_of_examples:
  "float_of ''89.99'' = Inr (8999 / 100)"
  "float_of ''1000.00'' = Inr 1000"
  by (simp_all add: float_of_def isdigit_def code_point_def nat_of_digits_def digit_val_def)

text \<open>The two examples of the claim hold: a debit of 89.99 and a credit of 1000.\<close>

lemma parse_amount_examples:
  "parse_amount ''-$89.99'' = Inr (Some (- (8999 / 100)), Some ''debit'')"
  "parse_amount ''$1,000.00'' = Inr (Some 1000, Some ''credit'')"
  unfolding parse_amount_def Let_def amount_searches
  using amount_searches(3-5) float_of_examples
  by (simp_all add: match_group_def remove_char_def)

text \<open>
  Claim C5.  An amount cell that starts with \<^verbatim>\<open>-\<close> or \<^verbatim>\<open>($\<close> is a debit and gives the
  negated magnitude of its first numeric run, any other cell with a numeric run is a
  credit, and a cell with no numeric run gives an absent amount and kind.  The pattern of
  the numeric run also accepts a run of commas with no digit; \<^verbatim>\<open>float\<close> rejects the empty
  text that is left of it, and \<^verbatim>\<open>parse_amount\<close> has no handler: on the cell \<^verbatim>\<open>,\<close> it
  raises \<^verbatim>\<open>ValueError\<close> instead of returning a pair, and so does the parse of a table
  with such a cell in its amount column.
\<close>

theorem parse_amount_comma_raises:
  "parse_amount '','' = Inl ValueError \<and>
   parse_transaction_table
     [[Some ''Date'', Some ''Amount''], [Some ''01/05/2024'', Some '','']] = Inl ValueError"
  by code_simp

section \<open>The account number\<close>

lemma matches_mask_digits: "matches mask_digits a g \<longleftrightarrow> masked_number a \<and> g = [(''1'', a)]"
proof
  assume "matches mask_digits a g"
  then obtain gu where g: "g = gu @ [(''1'', a)]"
    and "matches (Seq (rep1 (\<lambda>c. c = CHR ''*'')) (rep1 isdigit)) a gu"
    unfolding mask_digits_def matches_Grp by blast
  then obtain st dg where "a = st @ dg" "gu = []" "st \<noteq> []" "list_all (\<lambda>c. c = CHR ''*'') st"
    "dg \<noteq> []" "list_all isdigit dg"
    by (auto elim!: m_seqE simp: matches_rep1)
  with g show "masked_number a \<and> g = [(''1'', a)]" unfolding masked_number_def by auto
next
  assume a: "masked_number a \<and> g = [(''1'', a)]"
  then obtain st dg where sd: "a = st @ dg" "st \<noteq> []" "list_all (\<lambda>c. c = CHR ''*'') st"
    "dg \<noteq> []" "list_all isdigit dg"
    unfolding masked_number_def by blast
  have "matches (Seq (rep1 (\<lambda>c. c = CHR ''*'')) (rep1 isdigit)) (st @ dg) ([] @ [])"
    using sd by (intro m_seq) (simp_all add: matches_rep1)
  then have "matches mask_digits a ([] @ [(''1'', a)])"
    unfolding mask_digits_def using sd(1) by (intro m_grp) simp
  with a show "matches mask_digits a g" by simp
qed

lemma matches_account_pattern:
  "matches (account_pattern label) u g \<longleftrightarrow>
     (\<exists>lab ws a. u = lab @ ws @ a \<and> lower lab = lower label \<and> list_all isspace ws \<and>
        masked_number a \<and> g = [(''1'', a)])"
proof
  assume "matches (account_pattern label) u g"
  then obtain lab g1 u2 g2 where 1: "u = lab @ u2" "g = g1 @ g2" "matches (lit_i label) lab g1"
    and "matches (seqs [Star isspace, mask_digits]) u2 g2"
    unfolding account_pattern_def by (blast elim: matches_seqsE)
  then obtain ws g3 u3 g4 where 2: "u2 = ws @ u3" "g2 = g3 @ g4" "matches (Star isspace) ws g3"
    and "matches (seqs [mask_digits]) u3 g4"
    by (blast elim: matches_seqsE)
  then obtain a g5 u4 g6 where 3: "u3 = a @ u4" "g4 = g5 @ g6" "matches mask_digits a g5"
    and "matches (seqs []) u4 g6"
    by (blast elim: matches_seqsE)
  then have 4: "u4 = []" "g6 = []" by (simp_all add: matches_seqs_Nil)
  from 1 2 3 4 have "u = lab @ ws @ a \<and> lower lab = lower label \<and> list_all isspace ws \<and>
        masked_number a \<and> g = [(''1'', a)]"
    by (simp add: matches_lit_i matches_Star matches_mask_digits)
  then show "\<exists>lab ws a. u = lab @ ws @ a \<and> lower lab = lower label \<and> list_all isspace ws \<and>
        masked_number a \<and> g = [(''1'', a)]"
    by blast
next
  assume "\<exists>lab ws a. u = lab @ ws @ a \<and> lower lab = lower label \<and> list_all isspace ws \<and>
        masked_number a \<and> g = [(''1'', a)]"
  then obtain lab ws a where u: "u = lab @ ws @ a" "lower lab = lower label" "list_all isspace ws"
    "masked_number a" "g = [(''1'', a)]"
    by blast
  have "matches (seqs [lit_i label, Star isspace, mask_digits]) (lab @ ws @ a @ []) ([] @ [] @ [(''1'', a)] @ [])"
    using u by (intro matches_seqsI) (simp_all add: matches_lit_i matches_Star matches_mask_digits matches_seqs_Nil)
  then show "matches (account_pattern label) u g"
    using u by (simp add: account_pattern_def)
qed

lemma account_pattern_greedy:
  assumes "ms (account_pattern label) x \<noteq> []"
  shows "no_more isdigit (fst (hd (ms (account_pattern label) x)))"
proof -
  have dg: "no_more isdigit (fst (hd (ms (rep1 isdigit) y)))" if "ms (rep1 isdigit) y \<noteq> []" for y
    using that by (rule greedy_rep1)
  have sd: "no_more isdigit (fst (hd (ms (Seq (rep1 (\<lambda>c. c = CHR ''*'')) (rep1 isdigit)) y)))"
    if "ms (Seq (rep1 (\<lambda>c. c = CHR ''*'')) (rep1 isdigit)) y \<noteq> []" for y
    using dg that by (rule greedy_Seq)
  have md: "no_more isdigit (fst (hd (ms mask_digits y)))" if "ms mask_digits y \<noteq> []" for y
    using sd that unfolding mask_digits_def by (rule greedy_Grp)
  have md': "no_more isdigit (fst (hd (ms (Seq mask_digits Eps) y)))"
    if "ms (Seq mask_digits Eps) y \<noteq> []" for y
    using md[of y] that unfolding ms_Seq_Eps by blast
  have tail: "no_more isdigit (fst (hd (ms (Seq (Star isspace) (Seq mask_digits Eps)) y)))"
    if "ms (Seq (Star isspace) (Seq mask_digits Eps)) y \<noteq> []" for y
    using md' that by (rule greedy_Seq)
  have unf: "account_pattern label = Seq (lit_i label) (Seq (Star isspace) (Seq mask_digits Eps))"
    by (simp add: account_pattern_def seqs_def)
  show ?thesis using tail assms unfolding unf by (rule greedy_Seq)
qed

lemma masked_number_longest:
  assumes eq: "ws @ a @ rest = ws' @ a' @ post'"
    and ws: "list_all isspace ws" "list_all isspace ws'"
    and a: "masked_number a" "masked_number a'"
    and rest: "no_more isdigit rest"
  shows "length a' \<le> length a"
proof -
  from a obtain st dg st' dg' where
    s: "a = st @ dg" "st \<noteq> []" "list_all (\<lambda>c. c = CHR ''*'') st" "dg \<noteq> []" "list_all isdigit dg"
    and s': "a' = st' @ dg'" "st' \<noteq> []" "list_all (\<lambda>c. c = CHR ''*'') st'" "dg' \<noteq> []" "list_all isdigit dg'"
    unfolding masked_number_def by blast
  have star_nospace: "\<not> isspace CHR ''*''" by (simp add: isspace_def code_point_def)
  have digit_nostar: "\<not> isdigit CHR ''*''" by (simp add: isdigit_def code_point_def)
  have 1: "no_more isspace (a @ rest)" "no_more isspace (a' @ post')"
    using s s' star_nospace by (auto simp: no_more_def neq_Nil_conv)
  have "ws = takeWhile isspace (ws @ a @ rest)" using takeWhile_all_append[OF ws(1) 1(1)] by simp
  also have "\<dots> = takeWhile isspace (ws' @ a' @ post')" using eq by simp
  also have "\<dots> = ws'" using takeWhile_all_append[OF ws(2) 1(2)] by simp
  finally have w: "ws = ws'" .
  with eq have eq2: "st @ dg @ rest = st' @ dg' @ post'" using s(1) s'(1) by simp
  have 2: "no_more (\<lambda>c. c = CHR ''*'') (dg @ rest)" "no_more (\<lambda>c. c = CHR ''*'') (dg' @ post')"
    using s s' digit_nostar by (auto simp: no_more_def neq_Nil_conv)
  have "st = takeWhile (\<lambda>c. c = CHR ''*'') (st @ dg @ rest)"
    using takeWhile_all_append[OF s(3) 2(1)] by simp
  also have "\<dots> = takeWhile (\<lambda>c. c = CHR ''*'') (st' @ dg' @ post')" using eq2 by simp
  also have "\<dots> = st'" using takeWhile_all_append[OF s'(3) 2(2)] by simp
  finally have t: "st = st'" .
  with eq2 have eq3: "dg @ rest = dg' @ post'" by simp
  have "length dg' \<le> length (takeWhile isdigit (dg' @ post'))"
    using length_all_le_takeWhile[OF s'(5)] .
  also have "\<dots> = length (takeWhile isdigit (dg @ rest))" using eq3 by simp
  also have "\<dots> = length dg" using takeWhile_all_append[OF s(5) rest] by simp
  finally show ?thesis using s(1) s'(1) t by simp
qed

lemma search_account_pattern_Some:
  assumes "re_search (account_pattern label) text = Some m"
  shows "first_labelled_number label text (Some (match_group m ''1''))"
proof -
  obtain rest g where m: "m = (rest, g)" by (cases m)
  from re_search_leftmost[OF assms[unfolded m]] obtain pre u gu where
    t: "text = pre @ u @ rest" "g = gu @ [(''0'', u)]" "matches (account_pattern label) u gu"
    and least: "\<forall>pre' u' gu' rest'. text = pre' @ u' @ rest' \<and> matches (account_pattern label) u' gu' \<longrightarrow>
      length pre \<le> length pre'"
    by blast
  have greedy: "no_more isdigit rest"
    using re_search_greedy[OF account_pattern_greedy assms[unfolded m]] .
  from t(3) obtain lab ws a where
    a: "u = lab @ ws @ a" "lower lab = lower label" "list_all isspace ws" "masked_number a"
       "gu = [(''1'', a)]"
    unfolding matches_account_pattern by blast
  have grp: "match_group m ''1'' = a" using m t(2) a(5) by (simp add: match_group_def)
  have whole: "text = pre @ lab @ ws @ a @ rest" using t(1) a(1) by simp
  then have at: "labelled_number_at label text (length pre) a"
    unfolding labelled_number_at_def using a by blast
  have "length pre \<le> k' \<and> (k' = length pre \<longrightarrow> length a' \<le> length a)"
    if "labelled_number_at label text k' a'" for k' a'
  proof -
    from that obtain pre' lab' ws' post' where
      d: "text = pre' @ lab' @ ws' @ a' @ post'" "length pre' = k'" "lower lab' = lower label"
         "list_all isspace ws'" "masked_number a'"
      unfolding labelled_number_at_def by blast
    then have "matches (account_pattern label) (lab' @ ws' @ a') [(''1'', a')]"
      unfolding matches_account_pattern by blast
    moreover have "text = pre' @ (lab' @ ws' @ a') @ post'" using d(1) by simp
    ultimately have le: "length pre \<le> length pre'" using least by blast
    have "length a' \<le> length a" if same: "k' = length pre"
    proof -
      from same d(2) whole d(1) have "pre' = pre" "lab @ ws @ a @ rest = lab' @ ws' @ a' @ post'"
        by auto
      moreover have "length lab = length lab'"
        using lower_same_length[of lab label] lower_same_length[of lab' label] a(2) d(3) by simp
      ultimately have "ws @ a @ rest = ws' @ a' @ post'" by simp
      from masked_number_longest[OF this a(3) d(4) a(4) d(5) greedy] show ?thesis .
    qed
    with le d(2) show ?thesis by simp
  qed
  with at grp show ?thesis unfolding first_labelled_number_def by blast
qed

lemma search_account_pattern_None:
  assumes "re_search (account_pattern label) text = None"
  shows "\<not> labelled_number label text a"
proof
  assume "labelled_number label text a"
  then obtain pre lab ws post where
    t: "text = pre @ lab @ ws @ a @ post" "lower lab = lower label" "list_all isspace ws"
       "masked_number a"
    unfolding labelled_number_def labelled_number_at_def by blast
  then have "matches (account_pattern label) (lab @ ws @ a) [(''1'', a)]"
    unfolding matches_account_pattern by blast
  from re_search_found[OF this, of pre post] t(1) assms show False by simp
qed

lemma first_labelled_number_holds:
  "first_labelled_number label text r \<Longrightarrow> \<exists>a. r = Some a \<and> labelled_number label text a"
  unfolding first_labelled_number_def labelled_number_def by blast

lemma extract_account_number_cases:
  "extract_account_number text =
     (case re_search (account_pattern ''Account Number:'') text of
        Some m \<Rightarrow> Some (match_group m ''1'')
      | None \<Rightarrow>
     (case re_search (account_pattern ''Account No:'') text of
        Some m \<Rightarrow> Some (match_group m ''1'')
      | None \<Rightarrow>
     (case re_search (account_pattern ''Acct#'') text of
        Some m \<Rightarrow> Some (match_group m ''1'')
      | None \<Rightarrow> None)))"
  by (simp add: extract_account_number_def account_number_patterns_def split: option.splits)

text \<open>
  Claim C8, as the code has it.  The account number is absent exactly when the text has
  no masked number behind any of the three labels.  Otherwise it is the longest masked
  number behind the leftmost occurrence of the first label, in the order \<^verbatim>\<open>Account Number:\<close>,
  \<^verbatim>\<open>Account No:\<close>, \<^verbatim>\<open>Acct#\<close>, for which the text has one, taken from the text as it
  stands.  The third label has no colon: only white space may separate \<^verbatim>\<open>Acct#\<close> from
  the mask.
\<close>

theorem extract_account_number_priority:
  "extract_account_number text =
     (case re_search (account_pattern ''Account Number:'') text of
        Some m \<Rightarrow> Some (match_group m ''1'')
      | None \<Rightarrow>
     (case re_search (account_pattern ''Account No:'') text of
        Some m \<Rightarrow> Some (match_group m ''1'')
      | None \<Rightarrow>
     (case re_search (account_pattern ''Acct#'') text of
        Some m \<Rightarrow> Some (match_group m ''1'')
      | None \<Rightarrow> None))) \<and>
   (extract_account_number text = None \<longleftrightarrow>
      (\<forall>a. \<not> labelled_number ''Account Number:'' text a \<and>
           \<not> labelled_number ''Account No:'' text a \<and>
           \<not> labelled_number ''Acct#'' text a)) \<and>
   ((\<exists>a. labelled_number ''Account Number:'' text a) \<longrightarrow>
      first_labelled_number ''Account Number:'' text (extract_account_number text)) \<and>
   ((\<forall>a. \<not> labelled_number ''Account Number:'' text a) \<and>
    (\<exists>a. labelled_number ''Account No:'' text a) \<longrightarrow>
      first_labelled_number ''Account No:'' text (extract_account_number text)) \<and>
   ((\<forall>a. \<not> labelled_number ''Account Number:'' text a) \<and>
    (\<forall>a. \<not> labelled_number ''Account No:'' text a) \<and>
    (\<exists>a. labelled_number ''Acct#'' text a) \<longrightarrow>
      first_labelled_number ''Acct#'' text (extract_account_number text))"
proof -
  let ?s = "\<lambda>l. re_search (account_pattern l) text"
  note eq = extract_account_number_cases[of "text"]
  have some: "\<And>l m. ?s l = Some m \<Longrightarrow> first_labelled_number l text (Some (match_group m ''1''))"
    by (rule search_account_pattern_Some)
  have none: "\<And>l a. ?s l = None \<Longrightarrow> \<not> labelled_number l text a"
    by (rule search_account_pattern_None)
  show ?thesis
  proof (cases "?s ''Account Number:''")
    case (Some m)
    then have "extract_account_number text = Some (match_group m ''1'')"
      by (simp add: extract_account_number_cases)
    with eq some[OF Some] first_labelled_number_holds[OF some[OF Some]] show ?thesis by auto
  next
    case n1: None
    show ?thesis
    proof (cases "?s ''Account No:''")
      case (Some m)
      then have "extract_account_number text = Some (match_group m ''1'')"
        by (simp add: extract_account_number_cases n1)
      with eq some[OF Some] first_labelled_number_holds[OF some[OF Some]] none[OF n1]
      show ?thesis by auto
    next
      case n2: None
      show ?thesis
      proof (cases "?s ''Acct#''")
        case (Some m)
        then have "extract_account_number text = Some (match_group m ''1'')"
          by (simp add: extract_account_number_cases n1 n2)
        with eq some[OF Some] first_labelled_number_holds[OF some[OF Some]] none[OF n1] none[OF n2]
        show ?thesis by auto
      next
        case n3: None
        then have "extract_account_number text = None"
          by (simp add: extract_account_number_cases n1 n2)
        with eq none[OF n1] none[OF n2] none[OF n3] show ?thesis by auto
      qed
    qed
  qed
qed

lemma acct_searches:
  "re_search (account_pattern ''Account Number:'') ''Acct# ***1234'' = None"
  "re_search (account_pattern ''Account No:'') ''Acct# ***1234'' = None"
  "re_search (account_pattern ''Acct#'') ''Acct# ***1234'' = Some ([], [(''1'', ''***1234''), (''0'', ''Acct# ***1234'')])"
  by code_simp+

theorem extract_account_number_priority_witness:
  "first_labelled_number ''Acct#'' ''Acct# ***1234'' (extract_account_number ''Acct# ***1234'') \<and>
   extract_account_number ''Acct# ***1234'' = Some ''***1234''"
proof -
  have 1: "\<forall>a. \<not> labelled_number ''Account Number:'' ''Acct# ***1234'' a"
    using search_account_pattern_None[OF acct_searches(1)] by blast
  have 2: "\<forall>a. \<not> labelled_number ''Account No:'' ''Acct# ***1234'' a"
    using search_account_pattern_None[OF acct_searches(2)] by blast
  have 3: "\<exists>a. labelled_number ''Acct#'' ''Acct# ***1234'' a"
    using first_labelled_number_holds[OF search_account_pattern_Some[OF acct_searches(3)]] by blast
  from extract_account_number_priority[of "''Acct# ***1234''"] 1 2 3
  have "first_labelled_number ''Acct#'' ''Acct# ***1234'' (extract_account_number ''Acct# ***1234'')"
    by blast
  moreover have "extract_account_number ''Acct# ***1234'' = Some ''***1234''"
    unfolding extract_account_number_cases acct_searches by (simp add: match_group_def)
  ultimately show ?thesis by simp
qed

theorem acct_colon_counterexample: "extract_account_number ''Acct#: ***1234'' = None"
  by code_simp

section \<open>Date normalization\<close>









lemma normalize_date_examples:
  "normalize_date ''January 5, 2024'' = Inr ''2024-01-05''"
  "normalize_date ''Q1 2024'' = Inr ''Q1 2024''"
  "normalize_date [] = Inr []"
  by code_simp+

text \<open>The three formats at work: full month name, abbreviated month name, numeric.\<close>

lemma strptime_examples:
  "strptime ''Jan 5 2024'' ''%B %d %Y'' = Inl ValueError"
  "strptime ''Jan 5 2024'' ''%b %d %Y'' = Inr \<lparr>year = 2024, month = 1, day = 5\<rparr>"
  "strptime ''12/31/1999'' ''%m/%d/%Y'' = Inr \<lparr>year = 1999, month = 12, day = 31\<rparr>"
  "strptime ''02/30/2024'' ''%m/%d/%Y'' = Inl ValueError"
  by code_simp+





section \<open>The statement period\<close>










section \<open>Recognising a transaction table\<close>

lemma startswith_refl: "startswith s s"
  by (induction s) auto

lemma contains_self: "contains s s"
  by (cases s) (auto simp: startswith_refl)

text \<open>
  Claim C2, as the code has it.  A table is taken for a transaction table exactly when it
  has at least two rows and some lower-cased cell of its first row is equal to one of
  \<^verbatim>\<open>date\<close>, \<^verbatim>\<open>description\<close>, \<^verbatim>\<open>amount\<close>, \<^verbatim>\<open>balance\<close>.  Every such table also qualifies
  in the sense of the specification, where the token need only be a substring of the cell.
\<close>

theorem looks_like_transactions_exact:
  "(looks_like_transactions table \<longleftrightarrow>
      2 \<le> length table \<and>
      (\<exists>cell\<in>set (hd table). lowered cell \<in> {''date'', ''description'', ''amount'', ''balance''})) \<and>
   (looks_like_transactions table \<longrightarrow> qualifies_as_specified table)"
proof -
  have exact: "looks_like_transactions table \<longleftrightarrow>
      2 \<le> length table \<and>
      (\<exists>cell\<in>set (hd table). lowered cell \<in> {''date'', ''description'', ''amount'', ''balance''})"
  proof -
    have len: "(table \<noteq> [] \<and> length table > 1) \<longleftrightarrow> 2 \<le> length table"
      by (cases table) (auto simp: Suc_le_eq)
    have hdr: "list_ex (\<lambda>h. h \<in> set (map lowered (hd table))) header_tokens \<longleftrightarrow>
        (\<exists>cell\<in>set (hd table). lowered cell \<in> set header_tokens)"
      unfolding list_ex_iff by auto
    have toks: "set header_tokens = {''date'', ''description'', ''amount'', ''balance''}"
      by (simp add: header_tokens_def)
    show ?thesis
      unfolding looks_like_transactions_def Let_def hdr toks using len by blast
  qed
  have "qualifies_as_specified table" if "looks_like_transactions table"
  proof -
    from that exact obtain cell where len: "2 \<le> length table" and c: "cell \<in> set (hd table)"
      and tok: "lowered cell \<in> set header_tokens"
      by (auto simp: header_tokens_def)
    have "contains (lowered cell) (lowered cell)" by (rule contains_self)
    with tok have "list_ex (\<lambda>tok. contains tok (lowered cell)) header_tokens"
      unfolding list_ex_iff by blast
    with c len show ?thesis
      unfolding qualifies_as_specified_def list_ex_iff by blast
  qed
  with exact show ?thesis by blast
qed

theorem looks_like_transactions_exact_witness:
  "looks_like_transactions [[Some ''Date'', Some ''Description''], [Some ''01/05/2024'', Some ''Coffee'']] \<and>
   qualifies_as_specified [[Some ''Date'', Some ''Description''], [Some ''01/05/2024'', Some ''Coffee'']]"
proof -
  let ?t = "[[Some ''Date'', Some ''Description''], [Some ''01/05/2024'', Some ''Coffee'']]"
  have "lowered (Some ''Date'') = ''date''" by code_simp
  then have "2 \<le> length ?t \<and>
      (\<exists>cell\<in>set (hd ?t). lowered cell \<in> {''date'', ''description'', ''amount'', ''balance''})"
    by simp
  with looks_like_transactions_exact[of ?t] show ?thesis by blast
qed

text \<open>
  The summary table of the statement that \<^verbatim>\<open>demo_bank_statement.py\<close> generates: its first
  cell contains \<^verbatim>\<open>balance\<close>, so it qualifies in the sense of the specification, and it is
  not a transaction table for the code.
\<close>

theorem substring_header_counterexample:
  "qualifies_as_specified
     [[Some ''Opening Balance (Jan 1, 2024)'', Some ''$9,000.00''],
      [Some ''Total Credits'', Some ''$4,500.00'']] \<and>
   \<not> looks_like_transactions
     [[Some ''Opening Balance (Jan 1, 2024)'', Some ''$9,000.00''],
      [Some ''Total Credits'', Some ''$4,500.00'']]"
  by code_simp

section \<open>Which table gives the transactions\<close>









section \<open>Rows of a transaction table\<close>

lemma retained_present: "retained txn \<Longrightarrow> date txn \<noteq> None \<or> description txn \<noteq> None"
  by (auto simp: retained_def falsy_def)

lemma process_rows_invariant:
  assumes "process_rows cm rows acc = Inr ts" and "\<forall>t\<in>set acc. retained t"
  shows "\<forall>t\<in>set ts. retained t"
  using assms
proof (induction rows arbitrary: acc)
  case Nil
  then show ?case by simp
next
  case (Cons row rows)
  show ?case
  proof (cases "row = [] \<or> list_all falsy row")
    case True
    with Cons show ?thesis by simp
  next
    case False
    with Cons.prems(1) obtain txn where b: "build_transaction cm row = Inr txn"
      and p: "process_rows cm rows (if retained txn then acc @ [txn] else acc) = Inr ts"
      by (auto split: sum.splits)
    have "\<forall>t\<in>set (if retained txn then acc @ [txn] else acc). retained t"
      using Cons.prems(2) by auto
    from Cons.IH[OF p this] show ?thesis .
  qed
qed

lemma process_rows_skip:
  assumes "list_all falsy row"
  shows "process_rows cm (rows1 @ row # rows2) acc = process_rows cm (rows1 @ rows2) acc"
proof (induction rows1 arbitrary: acc)
  case Nil
  from assms show ?case by simp
next
  case (Cons r rows1)
  then show ?case by (simp split: sum.splits)
qed

lemma empty_row_table:
  "parse_transaction_table
     [[Some ''Date'', Some ''Description'', Some ''Amount'', Some ''Balance''],
      [Some [], Some [], Some [], Some []]] = Inr []"
  by code_simp

text \<open>
  Claim C3.  Every transaction of a parsed table has a date or a description that is
  present.  A data row whose cells are all empty or absent produces no transaction: the
  table parses as it would without that row.  The table with the header \<^verbatim>\<open>Date\<close>,
  \<^verbatim>\<open>Description\<close>, \<^verbatim>\<open>Amount\<close>, \<^verbatim>\<open>Balance\<close> and one row of four empty cells has no
  transaction.
\<close>

theorem parsed_transactions_have_date_or_description:
  "(\<forall>ts. parse_transaction_table table = Inr ts \<longrightarrow>
      (\<forall>t\<in>set ts. date t \<noteq> None \<or> description t \<noteq> None)) \<and>
   (list_all falsy row \<longrightarrow>
      parse_transaction_table (header # rows1 @ row # rows2) =
      parse_transaction_table (header # rows1 @ rows2)) \<and>
   parse_transaction_table
     [[Some ''Date'', Some ''Description'', Some ''Amount'', Some ''Balance''],
      [Some [], Some [], Some [], Some []]] = Inr []"
proof (intro conjI allI impI)
  fix ts
  assume p: "parse_transaction_table table = Inr ts"
  show "\<forall>t\<in>set ts. date t \<noteq> None \<or> description t \<noteq> None"
  proof (cases "table = [] \<or> length table < 2")
    case True
    with p show ?thesis by (simp add: parse_transaction_table_def)
  next
    case False
    with p have "process_rows (find_columns (map header_cell (hd table))) (tl table) [] = Inr ts"
      by (simp add: parse_transaction_table_def)
    from process_rows_invariant[OF this] show ?thesis
      using retained_present by auto
  qed
next
  assume e: "list_all falsy row"
  let ?cm = "find_columns (map header_cell header)"
  have skip: "process_rows ?cm (rows1 @ row # rows2) [] = process_rows ?cm (rows1 @ rows2) []"
    using e by (rule process_rows_skip)
  have only: "process_rows ?cm [row] [] = Inr []" using e by simp
  show "parse_transaction_table (header # rows1 @ row # rows2) =
        parse_transaction_table (header # rows1 @ rows2)"
  proof (cases "rows1 @ rows2 = []")
    case True
    then show ?thesis using only by (simp add: parse_transaction_table_def)
  next
    case False
    then have "\<not> length (header # rows1 @ rows2) < 2" by (cases "rows1 @ rows2") auto
    then show ?thesis using skip by (simp add: parse_transaction_table_def)
  qed
next
  show "parse_transaction_table
     [[Some ''Date'', Some ''Description'', Some ''Amount'', Some ''Balance''],
      [Some [], Some [], Some [], Some []]] = Inr []"
    by (rule empty_row_table)
qed

lemma coffee_rows:
  "parse_transaction_table [[Some ''Date'', Some ''Description''], [Some ''01/05/2024'', Some ''Coffee'']] =
     Inr [\<lparr>date = Some ''2024-01-05'', description = Some ''Coffee'', amount = None, balance = None,
           type = None\<rparr>]"
  "list_all falsy [None, Some []]"
  by code_simp+

theorem parsed_transactions_have_date_or_description_witness:
  "parse_transaction_table
     [[Some ''Date'', Some ''Description''], [None, Some []], [Some ''01/05/2024'', Some ''Coffee'']] =
     Inr [\<lparr>date = Some ''2024-01-05'', description = Some ''Coffee'', amount = None, balance = None,
           type = None\<rparr>] \<and>
   (\<exists>t. parse_transaction_table
          [[Some ''Date'', Some ''Description''], [Some ''01/05/2024'', Some ''Coffee'']] = Inr [t] \<and>
        \<not> (date t = None \<and> description t = None))"
proof -
  let ?h = "[Some ''Date'', Some ''Description'']"
  let ?r = "[Some ''01/05/2024'', Some ''Coffee'']"
  let ?t = "\<lparr>date = Some ''2024-01-05'', description = Some ''Coffee'', amount = None,
             balance = None, type = None\<rparr>"
  from parsed_transactions_have_date_or_description[of "[?h, ?r]" "[None, Some []]" ?h "[]" "[?r]"]
  have 1: "\<forall>ts. parse_transaction_table [?h, ?r] = Inr ts \<longrightarrow>
             (\<forall>t\<in>set ts. date t \<noteq> None \<or> description t \<noteq> None)"
    and 2: "list_all falsy [None, Some []] \<longrightarrow>
      parse_transaction_table (?h # [] @ [None, Some []] # [?r]) =
      parse_transaction_table (?h # [] @ [?r])"
    by blast+
  from 2 coffee_rows have a: "parse_transaction_table [?h, [None, Some []], ?r] = Inr [?t]"
    by simp
  from 1 coffee_rows(1) have "\<not> (date ?t = None \<and> description ?t = None)"
    by simp
  with coffee_rows(1) have "\<exists>t. parse_transaction_table [?h, ?r] = Inr [t] \<and>
      \<not> (date t = None \<and> description t = None)"
    by blast
  with a show ?thesis by blast
qed

section \<open>Truthiness of the retained row\<close>

lemma cell_text_falsy: "i < length row \<Longrightarrow> falsy (row ! i) \<Longrightarrow> cell_text row i = Inr []"
  by (simp add: cell_text_def)

lemma build_transaction_description:
  assumes "build_transaction cm row = Inr txn" and "description_col cm = Some i"
    and "cell_text row i = Inr s"
  shows "description txn = Some (strip s)"
  using assms unfolding build_transaction_def Let_def
  by (auto split: option.splits sum.splits)

lemma build_transaction_date_unmapped:
  assumes "build_transaction cm row = Inr txn" and "date_col cm = None"
  shows "date txn = None"
  using assms unfolding build_transaction_def Let_def
  by (auto split: option.splits sum.splits)

lemma build_transaction_date:
  assumes "build_transaction cm row = Inr txn" and "date_col cm = Some j"
    and "cell_text row j = Inr s" and "normalize_date s = Inr d"
  shows "date txn = Some d"
  using assms unfolding build_transaction_def Let_def
  by (auto split: option.splits sum.splits)

lemma strip_Nil: "strip [] = []"
  by (simp add: strip_def)

text \<open>
  Claim C10.  Whether a row is kept is decided by the truth value of its date and
  description texts, not by their presence.  For a row whose description column is mapped
  to an empty or absent cell, and whose date column is unmapped or mapped to an empty or
  absent cell, the transaction that is built has the empty text as its description, a
  present value, and yet the row adds nothing to the transactions.
\<close>

theorem empty_description_row_dropped:
  assumes "description_col cm = Some i" and "i < length row" and "falsy (row ! i)"
    and "date_col cm = None \<or> (\<exists>j. date_col cm = Some j \<and> j < length row \<and> falsy (row ! j))"
    and "build_transaction cm row = Inr txn"
  shows "description txn = Some [] \<and> description txn \<noteq> None \<and> \<not> retained txn \<and>
         process_rows cm (row # rows) acc = process_rows cm rows acc"
proof -
  have d: "description txn = Some []"
    using build_transaction_description[OF assms(5) assms(1) cell_text_falsy[OF assms(2,3)]]
    by (simp add: strip_Nil)
  have "falsy (date txn)"
  proof (cases "date_col cm")
    case None
    from build_transaction_date_unmapped[OF assms(5) None] show ?thesis by (simp add: falsy_def)
  next
    case (Some j)
    with assms(4) have j: "j < length row" "falsy (row ! j)" by auto
    from build_transaction_date[OF assms(5) Some cell_text_falsy[OF j] normalize_date_examples(3)]
    show ?thesis by (simp add: falsy_def)
  qed
  with d have r: "\<not> retained txn" by (simp add: retained_def falsy_def)
  have "process_rows cm (row # rows) acc = process_rows cm rows acc"
    using assms(5) r by simp
  with d r show ?thesis by simp
qed

lemma ref_row:
  "build_transaction
     \<lparr>date_col = Some 0, description_col = Some 1, amount_col = None, balance_col = None\<rparr>
     [Some [], Some [], Some ''A1''] =
     Inr \<lparr>date = Some [], description = Some [], amount = None, balance = None, type = None\<rparr>"
  by code_simp

theorem empty_description_row_dropped_witness:
  "description \<lparr>date = Some [], description = Some [], amount = None, balance = None, type = None\<rparr> = Some [] \<and>
   \<not> retained \<lparr>date = Some [], description = Some [], amount = None, balance = None, type = None\<rparr> \<and>
   process_rows \<lparr>date_col = Some 0, description_col = Some 1, amount_col = None, balance_col = None\<rparr>
     [[Some [], Some [], Some ''A1'']] [] = Inr []"
proof -
  let ?cm = "\<lparr>date_col = Some 0, description_col = Some 1, amount_col = None, balance_col = None\<rparr>"
  let ?row = "[Some [], Some [], Some ''A1'']"
  let ?txn = "\<lparr>date = Some [], description = Some [], amount = None, balance = None, type = None\<rparr>"
  have "description ?txn = Some [] \<and> description ?txn \<noteq> None \<and> \<not> retained ?txn \<and>
      process_rows ?cm (?row # []) [] = process_rows ?cm [] []"
    using ref_row
    by (intro empty_description_row_dropped[where i = 1 and cm = ?cm and row = ?row])
       (simp_all add: falsy_def)
  then show ?thesis
    unfolding process_rows.simps(1) by blast
qed

section \<open>The decryption boundary: a rejected password\<close>

lemma decrypt_pdf_catches: "decrypt_pdf lib input_base64 password \<noteq> Inl (Exception msg)"
  unfolding decrypt_pdf_def
  by (auto split: sum.splits raised.splits if_splits)

text \<open>
  Claim C9.  When the input decodes, the reader opens it, the document is encrypted and
  the library rejects the password (\<^verbatim>\<open>decrypt\<close> answers 0), the result is the failure
  with the message \<^verbatim>\<open>Incorrect password. Please check and try again.\<close> and the flag
  \<^verbatim>\<open>is_encrypted\<close> set.  No \<^verbatim>\<open>Exception\<close> leaves \<^verbatim>\<open>decrypt_pdf\<close>, whatever the library
  does.
\<close>

theorem wrong_password_reported:
  assumes "b64decode lib input_base64 = Inr pdf_bytes"
    and "write_input lib pdf_bytes = Inr input_path"
    and "PdfReader lib input_path = Inr rd"
    and "reader_is_encrypted rd"
    and "reader_decrypt rd password = Inr 0"
  shows "decrypt_pdf lib input_base64 password =
           Inr (Failure ''Incorrect password. Please check and try again.'' True) \<and>
         (\<forall>lib' input' password' msg. decrypt_pdf lib' input' password' \<noteq> Inl (Exception msg))"
proof -
  have "read_and_copy lib input_path password =
      Inr (Failure ''Incorrect password. Please check and try again.'' True)"
    using assms(3-5) by (simp add: read_and_copy_def)
  then have "decrypt_pdf lib input_base64 password =
      Inr (Failure ''Incorrect password. Please check and try again.'' True)"
    using assms(1,2) by (simp add: decrypt_pdf_def)
  then show ?thesis using decrypt_pdf_catches by blast
qed

theorem wrong_password_reported_witness:
  "decrypt_pdf sample_library ''JVBERi0xLjQ='' ''guess'' =
     Inr (Failure ''Incorrect password. Please check and try again.'' True) \<and>
   is_encrypted (Failure ''Incorrect password. Please check and try again.'' True)"
proof -
  have "decrypt_pdf sample_library ''JVBERi0xLjQ='' ''guess'' =
      Inr (Failure ''Incorrect password. Please check and try again.'' True) \<and>
    (\<forall>lib' input' password' msg. decrypt_pdf lib' input' password' \<noteq> Inl (Exception msg))"
    by (rule wrong_password_reported[where pdf_bytes = "''JVBERi0xLjQ=''"
          and input_path = "''/tmp/input.pdf''" and rd = locked_reader])
       (simp_all add: sample_library_def locked_reader_def)
  then show ?thesis by simp
qed

section \<open>The summary fields\<close>

lemma matches_amount_group: "matches amount_group n g \<longleftrightarrow> amount_text n \<and> g = [(''1'', n)]"
proof
  assume m: "matches amount_group n g"
  then obtain gu where g: "g = gu @ [(''1'', n)]"
    and mi: "matches (seqs [rep1 (\<lambda>c. isdigit c \<or> c = CHR '',''), opt_re (chr CHR ''.''), Star isdigit]) n gu"
    unfolding amount_group_def matches_Grp by blast
  obtain a p b g1 g2 g3 where n: "n = a @ p @ b" and gu: "gu = g1 @ g2 @ g3"
    and ms: "matches (rep1 (\<lambda>c. isdigit c \<or> c = CHR '','')) a g1"
      "matches (opt_re (chr CHR ''.'')) p g2" "matches (Star isdigit) b g3"
    using mi by (elim matches_seqsE) (auto simp: matches_seqs_Nil)
  from ms have "gu = []" "a \<noteq> []" "list_all (\<lambda>c. isdigit c \<or> c = CHR '','') a" "p = [] \<or> p = ''.''"
    "list_all isdigit b"
    using gu by (auto simp: matches_rep1 matches_opt_re matches_chr matches_Star)
  with n g show "amount_text n \<and> g = [(''1'', n)]" unfolding amount_text_def by auto
next
  assume a: "amount_text n \<and> g = [(''1'', n)]"
  then obtain a p b where n: "n = a @ p @ b" "a \<noteq> []" "list_all (\<lambda>c. isdigit c \<or> c = CHR '','') a"
    "p = [] \<or> p = ''.''" "list_all isdigit b"
    unfolding amount_text_def by blast
  have "matches (seqs [rep1 (\<lambda>c. isdigit c \<or> c = CHR '',''), opt_re (chr CHR ''.''), Star isdigit])
      (a @ p @ b @ []) ([] @ [] @ [] @ [])"
    using n by (intro matches_seqsI)
      (auto simp: matches_rep1 matches_opt_re matches_chr matches_Star matches_seqs_Nil)
  then have "matches amount_group n ([] @ [(''1'', n)])"
    unfolding amount_group_def using n(1) by (intro m_grp) simp
  with a show "matches amount_group n g" by simp
qed

lemma matches_summary_pattern:
  "matches (summary_pattern label) u g \<longleftrightarrow>
     (\<exists>lab fill dol n. u = lab @ fill @ dol @ n \<and> lower lab = lower label \<and>
        list_all (\<lambda>c. c \<noteq> CHR ''$'') fill \<and> (dol = [] \<or> dol = ''$'') \<and> amount_text n \<and>
        g = [(''1'', n)])"
proof
  assume m: "matches (summary_pattern label) u g"
  obtain p1 p2 p3 p4 g1 g2 g3 g4 where u: "u = p1 @ p2 @ p3 @ p4" and g: "g = g1 @ g2 @ g3 @ g4"
    and ms: "matches (lit_i label) p1 g1" "matches (Star (\<lambda>c. c \<noteq> CHR ''$'')) p2 g2"
      "matches (opt_re (chr CHR ''$'')) p3 g3" "matches amount_group p4 g4"
    using m unfolding summary_pattern_def
    by (elim matches_seqsE) (auto simp: matches_seqs_Nil)
  from ms u g have "u = p1 @ p2 @ p3 @ p4 \<and> lower p1 = lower label \<and>
        list_all (\<lambda>c. c \<noteq> CHR ''$'') p2 \<and> (p3 = [] \<or> p3 = ''$'') \<and> amount_text p4 \<and>
        g = [(''1'', p4)]"
    by (auto simp: matches_lit_i matches_Star matches_opt_re matches_chr matches_amount_group)
  then show "\<exists>lab fill dol n. u = lab @ fill @ dol @ n \<and> lower lab = lower label \<and>
        list_all (\<lambda>c. c \<noteq> CHR ''$'') fill \<and> (dol = [] \<or> dol = ''$'') \<and> amount_text n \<and>
        g = [(''1'', n)]"
    by blast
next
  assume "\<exists>lab fill dol n. u = lab @ fill @ dol @ n \<and> lower lab = lower label \<and>
        list_all (\<lambda>c. c \<noteq> CHR ''$'') fill \<and> (dol = [] \<or> dol = ''$'') \<and> amount_text n \<and>
        g = [(''1'', n)]"
  then obtain lab fill dol n where u: "u = lab @ fill @ dol @ n" and l: "lower lab = lower label"
    and f: "list_all (\<lambda>c. c \<noteq> CHR ''$'') fill" and d: "dol = [] \<or> dol = ''$''"
    and n: "amount_text n" and g: "g = [(''1'', n)]"
    by blast
  have "matches (summary_pattern label) (lab @ fill @ dol @ n @ []) ([] @ [] @ [] @ [(''1'', n)] @ [])"
    unfolding summary_pattern_def
    using l f d n
    by (intro matches_seqsI)
       (auto simp: matches_lit_i matches_Star matches_opt_re matches_chr matches_amount_group
          matches_seqs_Nil)
  then show "matches (summary_pattern label) u g" using u g by simp
qed

lemma search_summary_Some:
  assumes "re_search (summary_pattern label) text = Some m"
  shows "first_labelled_amount label text (match_group m ''1'')"
proof -
  obtain rest g where m: "m = (rest, g)" by (cases m)
  from re_search_leftmost[OF assms[unfolded m]] obtain pre u gu where
    t: "text = pre @ u @ rest" "g = gu @ [(''0'', u)]" "matches (summary_pattern label) u gu"
    and least: "\<forall>pre' u' gu' rest'. text = pre' @ u' @ rest' \<and> matches (summary_pattern label) u' gu' \<longrightarrow>
      length pre \<le> length pre'"
    by blast
  from t(3) obtain lab fill dol n where
    a: "u = lab @ fill @ dol @ n" "lower lab = lower label" "list_all (\<lambda>c. c \<noteq> CHR ''$'') fill"
       "dol = [] \<or> dol = ''$''" "amount_text n" "gu = [(''1'', n)]"
    unfolding matches_summary_pattern by blast
  have grp: "match_group m ''1'' = n" using m t(2) a(6) by (simp add: match_group_def)
  have "text = pre @ lab @ fill @ dol @ n @ rest" using t(1) a(1) by simp
  then have at: "labelled_amount_at label text (length pre) n"
    unfolding labelled_amount_at_def using a by blast
  have "length pre \<le> k'" if "labelled_amount_at label text k' n'" for k' n'
  proof -
    from that obtain pre' lab' fill' dol' post' where
      d: "text = pre' @ lab' @ fill' @ dol' @ n' @ post'" "length pre' = k'" "lower lab' = lower label"
         "list_all (\<lambda>c. c \<noteq> CHR ''$'') fill'" "dol' = [] \<or> dol' = ''$''" "amount_text n'"
      unfolding labelled_amount_at_def by blast
    then have "matches (summary_pattern label) (lab' @ fill' @ dol' @ n') [(''1'', n')]"
      unfolding matches_summary_pattern by blast
    moreover have "text = pre' @ (lab' @ fill' @ dol' @ n') @ post'" using d(1) by simp
    ultimately have "length pre \<le> length pre'" using least by blast
    with d(2) show ?thesis by simp
  qed
  with at grp show ?thesis unfolding first_labelled_amount_def by blast
qed

lemma search_summary_None:
  assumes "re_search (summary_pattern label) text = None"
  shows "\<not> labelled_amount label text n"
proof
  assume "labelled_amount label text n"
  then obtain pre lab fill dol post where
    t: "text = pre @ lab @ fill @ dol @ n @ post" "lower lab = lower label"
       "list_all (\<lambda>c. c \<noteq> CHR ''$'') fill" "dol = [] \<or> dol = ''$''" "amount_text n"
    unfolding labelled_amount_def labelled_amount_at_def by blast
  then have "matches (summary_pattern label) (lab @ fill @ dol @ n) [(''1'', n)]"
    unfolding matches_summary_pattern by blast
  from re_search_found[OF this, of pre post] t(1) assms show False by simp
qed

lemma first_labelled_amount_holds: "first_labelled_amount label text n \<Longrightarrow> labelled_amount label text n"
  unfolding first_labelled_amount_def labelled_amount_def by blast

lemma summary_field_found:
  assumes "\<exists>n. labelled_amount label text n"
  shows "\<exists>n. first_labelled_amount label text n \<and>
           summary_field label text =
             (case float_of (remove_char CHR '','' n) of Inr v \<Rightarrow> Some v | Inl e \<Rightarrow> None)"
proof (cases "re_search (summary_pattern label) text")
  case None
  from search_summary_None[OF this] assms show ?thesis by blast
next
  case (Some m)
  then have "summary_field label text =
      (case float_of (remove_char CHR '','' (match_group m ''1'')) of Inr v \<Rightarrow> Some v | Inl e \<Rightarrow> None)"
    by (simp add: summary_field_def)
  with search_summary_Some[OF Some] show ?thesis by blast
qed

lemma summary_field_absent:
  assumes "\<forall>n. \<not> labelled_amount label text n"
  shows "summary_field label text = None"
proof (cases "re_search (summary_pattern label) text")
  case None
  then show ?thesis by (simp add: summary_field_def)
next
  case (Some m)
  from first_labelled_amount_holds[OF search_summary_Some[OF this]] assms show ?thesis by blast
qed

lemma opening_search:
  "re_search (summary_pattern ''Opening Balance'') ''Opening Balance (Jan 1, 2024) $9,000.00'' =
     Some ([], [(''1'', ''9,000.00''), (''0'', ''Opening Balance (Jan 1, 2024) $9,000.00'')])"
  by code_simp

lemma float_of_9000: "float_of ''9000.00'' = Inr 9000"
  by (simp add: float_of_def isdigit_def code_point_def nat_of_digits_def digit_val_def)

lemma opening_example:
  "summary_field ''Opening Balance'' ''Opening Balance (Jan 1, 2024) $9,000.00'' = Some 9000"
  unfolding summary_field_def opening_search
  by (simp add: match_group_def remove_char_def float_of_9000)

text \<open>A run of separators with no digit is a failed numeric parse: the field is absent.\<close>

lemma summary_field_no_digit: "summary_field ''Opening Balance'' ''Opening Balance: ,'' = None"
  by code_simp

text \<open>
  Claim C6.  Each summary field is read with the pattern of its label: the field is the
  decimal value of group 1 of the first match, with the separators removed, and it is
  absent when there is no match or when the numeric parse fails.  The first match stands
  at the leftmost place where the text holds the label, in any letter case, followed by
  characters other than the dollar sign, an optional dollar sign and an amount text, and
  its group is such an amount text; there is no match exactly when the text has no such
  place.  The text \<^verbatim>\<open>Opening Balance (Jan 1, 2024) $9,000.00\<close> gives the opening
  balance 9000.
\<close>

theorem summary_fields_from_labelled_amounts:
  "opening_balance (extract_summary text) = summary_field ''Opening Balance'' text \<and>
   closing_balance (extract_summary text) = summary_field ''Closing Balance'' text \<and>
   total_credits (extract_summary text) = summary_field ''Total Credits'' text \<and>
   total_debits (extract_summary text) = summary_field ''Total Debits'' text \<and>
   summary_field label text =
     (case re_search (summary_pattern label) text of
        None \<Rightarrow> None
      | Some m \<Rightarrow>
          (case float_of (remove_char CHR '','' (match_group m ''1'')) of
             Inr v \<Rightarrow> Some v
           | Inl e \<Rightarrow> None)) \<and>
   (\<forall>m. re_search (summary_pattern label) text = Some m \<longrightarrow>
      first_labelled_amount label text (match_group m ''1'')) \<and>
   (re_search (summary_pattern label) text = None \<longleftrightarrow> (\<forall>n. \<not> labelled_amount label text n)) \<and>
   ((\<forall>n. \<not> labelled_amount label text n) \<longrightarrow> summary_field label text = None) \<and>
   ((\<exists>n. labelled_amount label text n) \<longrightarrow>
      (\<exists>n. first_labelled_amount label text n \<and>
         summary_field label text =
           (case float_of (remove_char CHR '','' n) of Inr v \<Rightarrow> Some v | Inl e \<Rightarrow> None))) \<and>
   opening_balance (extract_summary ''Opening Balance (Jan 1, 2024) $9,000.00'') = Some 9000"
proof -
  have fs: "opening_balance (extract_summary t) = summary_field ''Opening Balance'' t \<and>
      closing_balance (extract_summary t) = summary_field ''Closing Balance'' t \<and>
      total_credits (extract_summary t) = summary_field ''Total Credits'' t \<and>
      total_debits (extract_summary t) = summary_field ''Total Debits'' t" for t
    by (simp add: extract_summary_def)
  have eq: "summary_field label text =
     (case re_search (summary_pattern label) text of
        None \<Rightarrow> None
      | Some m \<Rightarrow>
          (case float_of (remove_char CHR '','' (match_group m ''1'')) of
             Inr v \<Rightarrow> Some v
           | Inl e \<Rightarrow> None))"
    by (simp add: summary_field_def)
  have first: "\<forall>m. re_search (summary_pattern label) text = Some m \<longrightarrow>
      first_labelled_amount label text (match_group m ''1'')"
    using search_summary_Some by blast
  have none: "re_search (summary_pattern label) text = None \<longleftrightarrow>
      (\<forall>n. \<not> labelled_amount label text n)"
  proof
    assume "re_search (summary_pattern label) text = None"
    then show "\<forall>n. \<not> labelled_amount label text n"
      using search_summary_None by blast
  next
    assume a: "\<forall>n. \<not> labelled_amount label text n"
    show "re_search (summary_pattern label) text = None"
    proof (cases "re_search (summary_pattern label) text")
      case (Some m)
      from first_labelled_amount_holds[OF search_summary_Some[OF this]] a show ?thesis by blast
    qed simp
  qed
  from fs[of "text"] fs[of "''Opening Balance (Jan 1, 2024) $9,000.00''"]
    summary_field_absent[of label "text"] summary_field_found[of label "text"] opening_example
  have rest: "opening_balance (extract_summary text) = summary_field ''Opening Balance'' text \<and>
      closing_balance (extract_summary text) = summary_field ''Closing Balance'' text \<and>
      total_credits (extract_summary text) = summary_field ''Total Credits'' text \<and>
      total_debits (extract_summary text) = summary_field ''Total Debits'' text \<and>
      ((\<forall>n. \<not> labelled_amount label text n) \<longrightarrow> summary_field label text = None) \<and>
      ((\<exists>n. labelled_amount label text n) \<longrightarrow>
        (\<exists>n. first_labelled_amount label text n \<and>
           summary_field label text =
             (case float_of (remove_char CHR '','' n) of Inr v \<Rightarrow> Some v | Inl e \<Rightarrow> None))) \<and>
      opening_balance (extract_summary ''Opening Balance (Jan 1, 2024) $9,000.00'') = Some 9000"
    by simp
  from eq first none rest show ?thesis by blast
qed

theorem summary_fields_from_labelled_amounts_witness:
  "first_labelled_amount ''Opening Balance'' ''Opening Balance (Jan 1, 2024) $9,000.00'' ''9,000.00'' \<and>
   (\<exists>n. first_labelled_amount ''Opening Balance'' ''Opening Balance (Jan 1, 2024) $9,000.00'' n \<and>
        Some 9000 = (case float_of (remove_char CHR '','' n) of Inr v \<Rightarrow> Some v | Inl e \<Rightarrow> None))"
proof -
  let ?t = "''Opening Balance (Jan 1, 2024) $9,000.00''"
  have l: "first_labelled_amount ''Opening Balance'' ?t ''9,000.00''"
    using search_summary_Some[OF opening_search] by (simp add: match_group_def)
  then have "\<exists>n. labelled_amount ''Opening Balance'' ?t n"
    using first_labelled_amount_holds by blast
  with summary_fields_from_labelled_amounts[of ?t "''Opening Balance''"]
  obtain n where "first_labelled_amount ''Opening Balance'' ?t n"
    "summary_field ''Opening Balance'' ?t =
       (case float_of (remove_char CHR '','' n) of Inr v \<Rightarrow> Some v | Inl e \<Rightarrow> None)"
    by blast
  with l opening_example show ?thesis by auto
qed

end
